theory Spec2Isabelle
  imports Complex_Main "HOL-Library.Word" "HOL-Library.Log_Nat"
begin

section \<open>Thresholding: the pixel loop of \<open>processImage\<close>\<close>

text \<open>
  \<open>imageData.data\<close> is a \<open>Uint8ClampedArray\<close>: a flat sequence of bytes, four per pixel
  (red, green, blue, alpha). The two thresholds are the integers that \<open>parseInt\<close> reads
  from the range inputs.
\<close>

type_synonym byte = "8 word"

record ImageData =
  img_width :: nat
  img_height :: nat
  img_data :: "byte list"

record ThresholdParams =
  luminanceThreshold :: int
  alphaThreshold :: int

text \<open>
  JavaScript numbers are IEEE 754 binary64 values. A finite one is a rational number, and
  the result of an arithmetic operation is the exact result rounded to the nearest
  binary64 value, ties to the even significand. \<open>to_double\<close> is that rounding, for
  magnitudes in the normal range (all the values of the luminance are 0 or lie between
  \<open>0.1\<close> and \<open>256\<close>): \<open>e\<close> is the binary exponent of the magnitude, and the significand
  has 53 bits. Sums and differences of binary64 values that fall below the normal range
  are exact, in the arithmetic as in \<open>to_double\<close>; overflow to infinity, at magnitudes of
  \<open>2^1024\<close> and above, is not modelled.
\<close>

definition pow2 :: "int \<Rightarrow> rat" where
  "pow2 k = (if 0 \<le> k then 2 ^ nat k else 1 / 2 ^ nat (- k))"

definition roundTiesToEven :: "rat \<Rightarrow> int" where
  "roundTiesToEven q =
     (let f = \<lfloor>q\<rfloor>; d = q - of_int f
      in if d < 1 / 2 then f else if 1 / 2 < d then f + 1 else if even f then f else f + 1)"

definition to_double :: "rat \<Rightarrow> rat" where
  "to_double q =
     (if q = 0 then 0
      else
        let a = \<bar>q\<bar>;
            k = bitlen (fst (quotient_of a)) - bitlen (snd (quotient_of a));
            e = (if pow2 k \<le> a then k else k - 1);
            ulp = pow2 (e - 52);
            m = roundTiesToEven (a / ulp)
        in if 0 < q then of_int m * ulp else - (of_int m * ulp))"

definition dmul :: "rat \<Rightarrow> rat \<Rightarrow> rat" where
  "dmul a b = to_double (a * b)"

definition dadd :: "rat \<Rightarrow> rat \<Rightarrow> rat" where
  "dadd a b = to_double (a + b)"

definition dsub :: "rat \<Rightarrow> rat \<Rightarrow> rat" where
  "dsub a b = to_double (a - b)"

definition ddiv :: "rat \<Rightarrow> rat \<Rightarrow> rat" where
  "ddiv a b = to_double (a / b)"

definition byte_num :: "byte \<Rightarrow> rat" where
  "byte_num v = of_nat (unat v)"

text \<open>\<open>0.299 * r + 0.587 * g + 0.114 * b\<close> on three bytes (line 197).\<close>

definition luminanceOf :: "byte \<Rightarrow> byte \<Rightarrow> byte \<Rightarrow> rat" where
  "luminanceOf r g b =
     dadd (dadd (dmul (to_double (299 / 1000)) (byte_num r))
                (dmul (to_double (587 / 1000)) (byte_num g)))
          (dmul (to_double (114 / 1000)) (byte_num b))"

text \<open>
  Reading a typed array past its end gives \<open>undefined\<close> (here \<open>None\<close>), and arithmetic on
  \<open>undefined\<close> gives \<open>NaN\<close> (again \<open>None\<close>); every comparison with \<open>NaN\<close> is false.
  Writing past the end of a typed array is ignored, which is what \<open>list_update\<close> does.
\<close>

definition read_at :: "byte list \<Rightarrow> nat \<Rightarrow> byte option" where
  "read_at d i = (if i < length d then Some (d ! i) else None)"

definition luminance :: "byte option \<Rightarrow> byte option \<Rightarrow> byte option \<Rightarrow> rat option" where
  "luminance r g b =
     (case (r, g, b) of
        (Some r', Some g', Some b') \<Rightarrow> Some (luminanceOf r' g' b')
      | _ \<Rightarrow> None)"

definition js_gt :: "rat option \<Rightarrow> int \<Rightarrow> bool" where
  "js_gt v t = (case v of None \<Rightarrow> False | Some l \<Rightarrow> l > of_int t)"

definition js_lt :: "byte option \<Rightarrow> int \<Rightarrow> bool" where
  "js_lt v t = (case v of None \<Rightarrow> False | Some a \<Rightarrow> int (unat a) < t)"

text \<open>One iteration of the loop body at index \<open>i\<close> (lines 190 to 210).\<close>

definition processImage_body :: "ThresholdParams \<Rightarrow> nat \<Rightarrow> byte list \<Rightarrow> byte list" where
  "processImage_body p i d =
     (let r = read_at d i; g = read_at d (i + 1); b = read_at d (i + 2); alpha = read_at d (i + 3);
          lum = luminance r g b
      in if js_gt lum (luminanceThreshold p) \<or> js_lt alpha (alphaThreshold p)
         then d[i + 3 := 0]
         else d[i := 0, i + 1 := 0, i + 2 := 0, i + 3 := 255])"

text \<open>\<open>for (let i = 0; i < data.length; i += 4)\<close>\<close>

function processImage_loop :: "ThresholdParams \<Rightarrow> nat \<Rightarrow> byte list \<Rightarrow> byte list" where
  "processImage_loop p i d =
     (if i < length d then processImage_loop p (i + 4) (processImage_body p i d) else d)"
  by pat_completeness auto
termination
  by (relation "measure (\<lambda>(p, i, d). length d - i)")
    (auto simp: processImage_body_def Let_def)

declare processImage_loop.simps [simp del]

text \<open>
  The pixel transformation of \<open>processImage\<close>: the loop runs in place over the data of the
  image read from the canvas; width and height are not touched.
\<close>

definition processImage :: "ThresholdParams \<Rightarrow> ImageData \<Rightarrow> ImageData" where
  "processImage p img = img\<lparr>img_data := processImage_loop p 0 (img_data img)\<rparr>"

subsection \<open>Vocabulary for the statements\<close>

definition wellformed :: "ImageData \<Rightarrow> bool" where
  "wellformed img \<longleftrightarrow>
     0 < img_width img \<and> 0 < img_height img \<and>
     length (img_data img) = img_width img * img_height img * 4"

type_synonym rgba = "byte \<times> byte \<times> byte \<times> byte"

definition pixel :: "byte list \<Rightarrow> nat \<Rightarrow> rgba" where
  "pixel d k = (d ! (4 * k), d ! (4 * k + 1), d ! (4 * k + 2), d ! (4 * k + 3))"

definition lum_of :: "rgba \<Rightarrow> rat" where
  "lum_of px = (case px of (r, g, b, a) \<Rightarrow> luminanceOf r g b)"

definition alpha_of :: "rgba \<Rightarrow> byte" where
  "alpha_of px = (case px of (r, g, b, a) \<Rightarrow> a)"

definition is_background :: "ThresholdParams \<Rightarrow> rgba \<Rightarrow> bool" where
  "is_background p px \<longleftrightarrow>
     lum_of px > of_int (luminanceThreshold p) \<or> int (unat (alpha_of px)) < alphaThreshold p"

definition ink :: rgba where
  "ink = (0, 0, 0, 255)"

definition cleared :: "rgba \<Rightarrow> rgba" where
  "cleared px = (case px of (r, g, b, a) \<Rightarrow> (r, g, b, 0))"

definition thresholded :: "ThresholdParams \<Rightarrow> rgba \<Rightarrow> rgba" where
  "thresholded p px = (if is_background p px then cleared px else ink)"

text \<open>The binary exponent that \<open>to_double\<close> computes for a positive number.\<close>

definition expo :: "rat \<Rightarrow> int" where
  "expo a =
     (let k = bitlen (fst (quotient_of a)) - bitlen (snd (quotient_of a))
      in if pow2 k \<le> a then k else k - 1)"

definition example_image :: ImageData where
  "example_image = \<lparr>img_width = 4, img_height = 1,
     img_data = [10, 10, 10, 255,  250, 250, 250, 255,  0, 0, 0, 10,  0, 0, 0, 200]\<rparr>"

definition default_params :: ThresholdParams where
  "default_params = \<lparr>luminanceThreshold = 200, alphaThreshold = 50\<rparr>"

definition grey_image :: ImageData where
  "grey_image = \<lparr>img_width = 1, img_height = 1, img_data = [210, 210, 210, 255]\<rparr>"

section \<open>Crop geometry: the pointer handlers\<close>

text \<open>
  Coordinates are JavaScript numbers in canvas-local display units: binary64 values,
  here the rationals they denote. Every \<open>+\<close> and \<open>-\<close> of the source is \<open>dadd\<close> and
  \<open>dsub\<close>, the exact result rounded; comparisons, \<open>Math.min\<close>, \<open>Math.max\<close> and
  \<open>Math.abs\<close> are exact. \<open>canvas.width\<close> and \<open>canvas.height\<close> are unsigned 32-bit
  integers.
\<close>

record Point =
  pt_x :: rat
  pt_y :: rat

record CropRect =
  crop_x :: rat
  crop_y :: rat
  crop_width :: rat
  crop_height :: rat

record Canvas =
  canvas_width :: "32 word"
  canvas_height :: "32 word"

definition canvasWidth :: "Canvas \<Rightarrow> rat" where
  "canvasWidth canvas = of_nat (unat (canvas_width canvas))"

definition canvasHeight :: "Canvas \<Rightarrow> rat" where
  "canvasHeight canvas = of_nat (unat (canvas_height canvas))"

datatype DragMode = Move | NW | NE | SW | SE | Draw

datatype Cursor = CursorDefault | Crosshair | Grab | NWResize | NEResize | SWResize | SEResize

text \<open>
  The React state that the handlers read and set. \<open>dragMode\<close> is \<open>null\<close> (\<open>None\<close>)
  outside a drag. The image behind \<open>processedImageUrl\<close> is opaque here.
\<close>

record 'img AppState =
  processedImageUrl :: "'img option"
  isLoading :: bool
  error :: string
  isCropping :: bool
  isDragging :: bool
  dragMode :: "DragMode option"
  crop :: CropRect
  dragOffset :: Point
  startPoint :: Point
  currentCursor :: Cursor

definition HANDLE_SIZE :: rat where
  "HANDLE_SIZE = 12"

definition isInsideHandle :: "rat \<Rightarrow> rat \<Rightarrow> rat \<Rightarrow> rat \<Rightarrow> bool" where
  "isInsideHandle mouseX mouseY handleX handleY \<longleftrightarrow>
     mouseX \<ge> dsub handleX (ddiv HANDLE_SIZE 2) \<and>
     mouseX \<le> dadd handleX (ddiv HANDLE_SIZE 2) \<and>
     mouseY \<ge> dsub handleY (ddiv HANDLE_SIZE 2) \<and>
     mouseY \<le> dadd handleY (ddiv HANDLE_SIZE 2)"

definition normalizeCrop :: "CropRect \<Rightarrow> CropRect" where
  "normalizeCrop c =
     (let x = crop_x c; y = crop_y c; w = crop_width c; h = crop_height c;
          (x, w) = (if w < 0 then (dadd x w, \<bar>w\<bar>) else (x, w));
          (y, h) = (if h < 0 then (dadd y h, \<bar>h\<bar>) else (y, h))
      in \<lparr>crop_x = x, crop_y = y, crop_width = w, crop_height = h\<rparr>)"

text \<open>\<open>handleCanvasMouseDown\<close>, with the canvas-local point that \<open>getCanvasCoords\<close> returns.\<close>

definition handleCanvasMouseDown :: "'img AppState \<Rightarrow> Point \<Rightarrow> 'img AppState" where
  "handleCanvasMouseDown st pt =
     (if \<not> isCropping st \<or> isLoading st then st
      else
        let st1 = st\<lparr>isDragging := True\<rparr>;
            x = pt_x pt; y = pt_y pt; c = crop st
        in if isInsideHandle x y (crop_x c) (crop_y c) then st1\<lparr>dragMode := Some NW\<rparr>
           else if isInsideHandle x y (dadd (crop_x c) (crop_width c)) (crop_y c)
             then st1\<lparr>dragMode := Some NE\<rparr>
           else if isInsideHandle x y (crop_x c) (dadd (crop_y c) (crop_height c))
             then st1\<lparr>dragMode := Some SW\<rparr>
           else if isInsideHandle x y (dadd (crop_x c) (crop_width c))
                                      (dadd (crop_y c) (crop_height c))
             then st1\<lparr>dragMode := Some SE\<rparr>
           else if x > crop_x c \<and> x < dadd (crop_x c) (crop_width c) \<and>
                   y > crop_y c \<and> y < dadd (crop_y c) (crop_height c)
             then st1\<lparr>dragMode := Some Move,
                      dragOffset := \<lparr>pt_x = dsub x (crop_x c), pt_y = dsub y (crop_y c)\<rparr>\<rparr>
           else st1\<lparr>dragMode := Some Draw,
                    startPoint := \<lparr>pt_x = x, pt_y = y\<rparr>,
                    crop := \<lparr>crop_x = x, crop_y = y, crop_width = 0, crop_height = 0\<rparr>\<rparr>)"

text \<open>
  The updater passed to \<open>setCrop\<close> in \<open>handleCanvasMouseMove\<close> (lines 383 to 442), in its
  three steps. First the \<open>switch\<close> on the drag mode (lines 384 to 422), which gives the
  temporary rectangle, or nothing in the \<open>default\<close> branch.
\<close>

definition dragRect ::
    "DragMode option \<Rightarrow> Point \<Rightarrow> Point \<Rightarrow> Point \<Rightarrow> CropRect \<Rightarrow> CropRect option" where
  "dragRect mode offset start pt prevCrop =
     (let currentX = pt_x pt; currentY = pt_y pt;
          tempX = crop_x prevCrop; tempY = crop_y prevCrop;
          tempWidth = crop_width prevCrop; tempHeight = crop_height prevCrop
      in case mode of
           Some Move \<Rightarrow>
             Some \<lparr>crop_x = dsub currentX (pt_x offset), crop_y = dsub currentY (pt_y offset),
                   crop_width = tempWidth, crop_height = tempHeight\<rparr>
         | Some Draw \<Rightarrow>
             Some \<lparr>crop_x = pt_x start, crop_y = pt_y start,
                   crop_width = dsub currentX (pt_x start),
                   crop_height = dsub currentY (pt_y start)\<rparr>
         | Some NW \<Rightarrow>
             Some \<lparr>crop_x = currentX, crop_y = currentY,
                   crop_width = dadd (crop_width prevCrop) (dsub (crop_x prevCrop) currentX),
                   crop_height = dadd (crop_height prevCrop) (dsub (crop_y prevCrop) currentY)\<rparr>
         | Some NE \<Rightarrow>
             Some \<lparr>crop_x = tempX, crop_y = currentY,
                   crop_width = dsub currentX (crop_x prevCrop),
                   crop_height = dadd (crop_height prevCrop) (dsub (crop_y prevCrop) currentY)\<rparr>
         | Some SW \<Rightarrow>
             Some \<lparr>crop_x = currentX, crop_y = tempY,
                   crop_width = dadd (crop_width prevCrop) (dsub (crop_x prevCrop) currentX),
                   crop_height = dsub currentY (crop_y prevCrop)\<rparr>
         | Some SE \<Rightarrow>
             Some \<lparr>crop_x = tempX, crop_y = tempY,
                   crop_width = dsub currentX (crop_x prevCrop),
                   crop_height = dsub currentY (crop_y prevCrop)\<rparr>
         | None \<Rightarrow> None)"

text \<open>Then the boundary checks on the normalized rectangle (lines 427 to 441).\<close>

definition boundaryChecks :: "Canvas \<Rightarrow> CropRect \<Rightarrow> CropRect" where
  "boundaryChecks canvas normalized =
     (let finalX = max 0 (min (crop_x normalized)
                              (dsub (canvasWidth canvas) (crop_width normalized)));
          finalY = max 0 (min (crop_y normalized)
                              (dsub (canvasHeight canvas) (crop_height normalized)));
          finalWidth = crop_width normalized;
          finalHeight = crop_height normalized;
          finalWidth = (if dadd finalX finalWidth > canvasWidth canvas
                        then dsub (canvasWidth canvas) finalX else finalWidth);
          finalHeight = (if dadd finalY finalHeight > canvasHeight canvas
                         then dsub (canvasHeight canvas) finalY else finalHeight)
      in \<lparr>crop_x = finalX, crop_y = finalY, crop_width = finalWidth, crop_height = finalHeight\<rparr>)"

definition updateDrag ::
    "DragMode option \<Rightarrow> Point \<Rightarrow> Point \<Rightarrow> Canvas \<Rightarrow> Point \<Rightarrow> CropRect \<Rightarrow> CropRect" where
  "updateDrag mode offset start canvas pt prevCrop =
     (case dragRect mode offset start pt prevCrop of
        None \<Rightarrow> prevCrop
      | Some temp \<Rightarrow> boundaryChecks canvas (normalizeCrop temp))"

text \<open>The cursor hint of \<open>handleCanvasMouseMove\<close> (lines 362 to 378).\<close>

definition updateCursor :: "'img AppState \<Rightarrow> Point \<Rightarrow> 'img AppState" where
  "updateCursor st pt =
     (let currentX = pt_x pt; currentY = pt_y pt; c = crop st
      in if isCropping st \<and> \<not> isDragging st then
           (if isInsideHandle currentX currentY (crop_x c) (crop_y c)
              then st\<lparr>currentCursor := NWResize\<rparr>
            else if isInsideHandle currentX currentY (dadd (crop_x c) (crop_width c)) (crop_y c)
              then st\<lparr>currentCursor := NEResize\<rparr>
            else if isInsideHandle currentX currentY (crop_x c) (dadd (crop_y c) (crop_height c))
              then st\<lparr>currentCursor := SWResize\<rparr>
            else if isInsideHandle currentX currentY (dadd (crop_x c) (crop_width c))
                                                     (dadd (crop_y c) (crop_height c))
              then st\<lparr>currentCursor := SEResize\<rparr>
            else if currentX > crop_x c \<and> currentX < dadd (crop_x c) (crop_width c) \<and>
                    currentY > crop_y c \<and> currentY < dadd (crop_y c) (crop_height c)
              then st\<lparr>currentCursor := Grab\<rparr>
            else st\<lparr>currentCursor := Crosshair\<rparr>)
         else if \<not> isCropping st then st\<lparr>currentCursor := CursorDefault\<rparr>
         else st)"

definition handleCanvasMouseMove :: "'img AppState \<Rightarrow> Canvas \<Rightarrow> Point \<Rightarrow> 'img AppState" where
  "handleCanvasMouseMove st canvas pt =
     (let st1 = updateCursor st pt
      in if \<not> isDragging st \<or> \<not> isCropping st \<or> isLoading st then st1
         else st1\<lparr>crop := updateDrag (dragMode st) (dragOffset st) (startPoint st) canvas pt
                                      (crop st)\<rparr>)"

definition handleCanvasMouseUp :: "'img AppState \<Rightarrow> 'img AppState" where
  "handleCanvasMouseUp st =
     (let st1 = st\<lparr>isDragging := False, dragMode := None\<rparr>
      in if isCropping st then st1\<lparr>currentCursor := Crosshair\<rparr> else st1)"

text \<open>
  \<open>handleApplyCrop\<close>. \<open>canvasRef\<close> is \<open>processedCanvasRef.current\<close> (\<open>None\<close> when the canvas
  is not mounted). Scaling the rectangle by the display ratio, \<open>drawImage\<close> and
  \<open>toDataURL\<close> belong to the canvas; they are the parameter \<open>drawCropped\<close>.
\<close>

definition invalidCropMessage :: string where
  "invalidCropMessage = ''Please select a valid crop area first.''"

definition handleApplyCrop ::
    "('img \<Rightarrow> Canvas \<Rightarrow> CropRect \<Rightarrow> 'img) \<Rightarrow> Canvas option \<Rightarrow> 'img AppState \<Rightarrow> 'img AppState" where
  "handleApplyCrop drawCropped canvasRef st =
     (case (processedImageUrl st, canvasRef) of
        (Some url, Some sourceCanvas) \<Rightarrow>
          if crop_width (crop st) = 0 \<or> crop_height (crop st) = 0
          then st\<lparr>error := invalidCropMessage\<rparr>
          else st\<lparr>error := [],
                  processedImageUrl := Some (drawCropped url sourceCanvas (crop st)),
                  isLoading := False,
                  isCropping := False,
                  crop := \<lparr>crop_x = 0, crop_y = 0, crop_width = 0, crop_height = 0\<rparr>\<rparr>
      | _ \<Rightarrow> st\<lparr>error := invalidCropMessage\<rparr>)"

text \<open>
  A drag gesture: pointer-down at \<open>p0\<close>, then pointer-moves at \<open>pts\<close>, in order, each
  handled to completion before the next.
\<close>

definition dragGesture :: "'img AppState \<Rightarrow> Point \<Rightarrow> Canvas \<Rightarrow> Point list \<Rightarrow> 'img AppState" where
  "dragGesture st0 p0 canvas pts =
     foldl (\<lambda>s p. handleCanvasMouseMove s canvas p) (handleCanvasMouseDown st0 p0) pts"

subsection \<open>Vocabulary for the statements\<close>

text \<open>
  The hit-zone of a corner: the square of half-width 6 centred on it, its four bounds
  rounded to binary64.
\<close>

definition in_hit_zone :: "Point \<Rightarrow> rat \<Rightarrow> rat \<Rightarrow> bool" where
  "in_hit_zone pt cx cy \<longleftrightarrow>
     dsub cx 6 \<le> pt_x pt \<and> pt_x pt \<le> dadd cx 6 \<and>
     dsub cy 6 \<le> pt_y pt \<and> pt_y pt \<le> dadd cy 6"

text \<open>A point on a corner of that square.\<close>

definition on_zone_corner :: "Point \<Rightarrow> rat \<Rightarrow> rat \<Rightarrow> bool" where
  "on_zone_corner pt cx cy \<longleftrightarrow>
     (pt_x pt = dsub cx 6 \<or> pt_x pt = dadd cx 6) \<and>
     (pt_y pt = dsub cy 6 \<or> pt_y pt = dadd cy 6)"

text \<open>Strictly inside, the far edges being the binary64 sums.\<close>

definition strictly_inside :: "Point \<Rightarrow> CropRect \<Rightarrow> bool" where
  "strictly_inside pt r \<longleftrightarrow>
     crop_x r < pt_x pt \<and> pt_x pt < dadd (crop_x r) (crop_width r) \<and>
     crop_y r < pt_y pt \<and> pt_y pt < dadd (crop_y r) (crop_height r)"

text \<open>
  The classification of \<open>beginDrag\<close>, in the order of the specification: the corners NW,
  NE, SW, SE, then the interior, then \<open>draw\<close>.
\<close>

definition beginDrag_mode :: "Point \<Rightarrow> CropRect \<Rightarrow> DragMode" where
  "beginDrag_mode pt r =
     (if in_hit_zone pt (crop_x r) (crop_y r) then NW
      else if in_hit_zone pt (dadd (crop_x r) (crop_width r)) (crop_y r) then NE
      else if in_hit_zone pt (crop_x r) (dadd (crop_y r) (crop_height r)) then SW
      else if in_hit_zone pt (dadd (crop_x r) (crop_width r)) (dadd (crop_y r) (crop_height r))
        then SE
      else if strictly_inside pt r then Move
      else Draw)"

text \<open>
  The geometry of the specification, on exact numbers. The points a rectangle covers,
  whichever the signs of its width and height, are those between its two vertical and
  its two horizontal edges.
\<close>

definition covers :: "CropRect \<Rightarrow> Point \<Rightarrow> bool" where
  "covers r pt \<longleftrightarrow>
     min (crop_x r) (crop_x r + crop_width r) \<le> pt_x pt \<and>
     pt_x pt \<le> max (crop_x r) (crop_x r + crop_width r) \<and>
     min (crop_y r) (crop_y r + crop_height r) \<le> pt_y pt \<and>
     pt_y pt \<le> max (crop_y r) (crop_y r + crop_height r)"

definition contained :: "Canvas \<Rightarrow> CropRect \<Rightarrow> bool" where
  "contained canvas r \<longleftrightarrow>
     0 \<le> crop_x r \<and> 0 \<le> crop_y r \<and>
     crop_x r + crop_width r \<le> canvasWidth canvas \<and>
     crop_y r + crop_height r \<le> canvasHeight canvas \<and>
     0 \<le> crop_width r \<and> 0 \<le> crop_height r"

text \<open>
  Contained as the boundary checks see it: the sums are the binary64 ones, and the exact
  sums exceed the canvas by at most one rounding error.
\<close>

definition contained_rounded :: "Canvas \<Rightarrow> CropRect \<Rightarrow> bool" where
  "contained_rounded canvas r \<longleftrightarrow>
     0 \<le> crop_x r \<and> 0 \<le> crop_y r \<and> 0 \<le> crop_width r \<and> 0 \<le> crop_height r \<and>
     dadd (crop_x r) (crop_width r) \<le> canvasWidth canvas \<and>
     dadd (crop_y r) (crop_height r) \<le> canvasHeight canvas \<and>
     crop_x r + crop_width r \<le> canvasWidth canvas + canvasWidth canvas / 2 ^ 53 \<and>
     crop_y r + crop_height r \<le> canvasHeight canvas + canvasHeight canvas / 2 ^ 53"

text \<open>What holds of the state all through a drag gesture.\<close>

definition dragging :: "'img AppState \<Rightarrow> bool" where
  "dragging st \<longleftrightarrow>
     isDragging st \<and> isCropping st \<and> \<not> isLoading st \<and>
     (dragMode st = Some Move \<longrightarrow> 0 \<le> crop_width (crop st) \<and> 0 \<le> crop_height (crop st))"

text \<open>A state in crop mode with the rectangle \<open>r\<close>, no drag under way.\<close>

definition croppingState :: "CropRect \<Rightarrow> unit AppState" where
  "croppingState r =
     \<lparr>processedImageUrl = Some (), isLoading = False, error = [], isCropping = True,
      isDragging = False, dragMode = None, crop = r,
      dragOffset = \<lparr>pt_x = 0, pt_y = 0\<rparr>, startPoint = \<lparr>pt_x = 0, pt_y = 0\<rparr>,
      currentCursor = Crosshair\<rparr>"

definition rect :: "rat \<Rightarrow> rat \<Rightarrow> rat \<Rightarrow> rat \<Rightarrow> CropRect" where
  "rect x y w h = \<lparr>crop_x = x, crop_y = y, crop_width = w, crop_height = h\<rparr>"

definition point :: "rat \<Rightarrow> rat \<Rightarrow> Point" where
  "point x y = \<lparr>pt_x = x, pt_y = y\<rparr>"

definition canvas_200_100 :: Canvas where
  "canvas_200_100 = \<lparr>canvas_width = 200, canvas_height = 100\<rparr>"

text \<open>
  The numbers of the counterexamples: \<open>20.1 - 20\<close> as the code computes it, and two
  rectangles and pointers reached by drawing.
\<close>

definition thin_width :: rat where
  "thin_width = dsub (to_double (201 / 10)) 20"

definition thin_rect :: CropRect where
  "thin_rect = rect 20 0 thin_width 70"

definition narrow_rect :: CropRect where
  "narrow_rect = rect (to_double (7 / 10)) 0 9 100"

definition edge_point :: Point where
  "edge_point = point (to_double (97 / 10)) 50"

definition flipped_rect :: CropRect where
  "flipped_rect = rect 151 0 (to_double (- (5000000000000113 / 10000000000000000))) 10"

definition thin_session :: "unit AppState" where
  "thin_session = dragGesture (croppingState thin_rect) (point (321 / 16) 35) canvas_200_100 []"

definition wide_rect :: CropRect where
  "wide_rect = rect 1 20 (to_double (151 / 10)) 50"

definition near_point :: Point where
  "near_point = point (to_double (101 / 10)) 26"

text \<open>A rational number that is a binary64 value.\<close>

definition is_double :: "rat \<Rightarrow> bool" where
  "is_double q \<longleftrightarrow> to_double q = q"

section \<open>Rounding to binary64\<close>

lemma pow2_powi: "pow2 k = 2 powi k"
  by (simp add: pow2_def power_int_def field_simps)

lemma pow2_pos [simp]: "0 < pow2 k"
  by (simp add: pow2_powi)

lemma pow2_nonneg [simp]: "0 \<le> pow2 k"
  by (rule less_imp_le) simp

lemma pow2_neq0 [simp]: "pow2 k \<noteq> 0"
  by (metis pow2_pos less_irrefl)

lemma pow2_52: "pow2 52 = 2 ^ 52" and pow2_53: "pow2 53 = 2 ^ 53"
  by (simp_all add: pow2_def)

lemma pow2_add: "pow2 (a + b) = pow2 a * pow2 b"
  by (simp add: pow2_powi power_int_add)

lemma pow2_diff: "pow2 (a - b) = pow2 a / pow2 b"
  by (simp add: pow2_powi power_int_diff)

lemma pow2_mono: "a \<le> b \<Longrightarrow> pow2 a \<le> pow2 b"
  by (simp add: pow2_powi power_int_increasing)

lemma pow2_strict_mono: "a < b \<Longrightarrow> pow2 a < pow2 b"
  by (simp add: pow2_powi power_int_strict_increasing)

lemma pow2_less_iff: "pow2 a < pow2 b \<longleftrightarrow> a < b"
proof
  assume "pow2 a < pow2 b"
  show "a < b"
  proof (rule ccontr)
    assume "\<not> a < b"
    then have "pow2 b \<le> pow2 a" by (simp add: pow2_mono)
    with \<open>pow2 a < pow2 b\<close> show False by simp
  qed
qed (rule pow2_strict_mono)

lemma pow2_of_nat: "pow2 (int n) = 2 ^ n"
  by (simp add: pow2_def)

lemma pow2_Suc: "pow2 (k + 1) = 2 * pow2 k"
  by (simp add: pow2_powi power_int_add_1')

lemma expo_bounds:
  assumes "0 < a"
  shows "pow2 (expo a) \<le> a" and "a < pow2 (expo a + 1)"
proof -
  obtain n d where q: "quotient_of a = (n, d)" by (cases "quotient_of a")
  then have d: "0 < d" and a: "a = of_int n / of_int d"
    by (simp_all add: quotient_of_denom_pos quotient_of_div)
  with assms have n: "0 < n" by (simp add: zero_less_divide_iff)
  let ?k = "bitlen n - bitlen d"
  from bitlen_bounds [OF n] have n1: "(2::int) ^ nat (bitlen n - 1) \<le> n" and n2: "n < 2 ^ nat (bitlen n)"
    by simp_all
  from bitlen_bounds [OF d] have d1: "(2::int) ^ nat (bitlen d - 1) \<le> d" and d2: "d < 2 ^ nat (bitlen d)"
    by simp_all
  have bn: "1 \<le> bitlen n" using n by (simp add: bitlen_alt_def)
  have bd: "1 \<le> bitlen d" using d by (simp add: bitlen_alt_def)
  have N1: "pow2 (bitlen n - 1) \<le> of_int n"
  proof -
    have "(of_int ((2::int) ^ nat (bitlen n - 1)) :: rat) \<le> of_int n" using n1 by (simp only: of_int_le_iff)
    then show ?thesis using bn by (simp add: pow2_def)
  qed
  have N2: "of_int n < pow2 (bitlen n)"
  proof -
    have "(of_int n :: rat) < of_int ((2::int) ^ nat (bitlen n))" using n2 by (simp only: of_int_less_iff)
    then show ?thesis using bn by (simp add: pow2_def)
  qed
  have D1: "pow2 (bitlen d - 1) \<le> of_int d"
  proof -
    have "(of_int ((2::int) ^ nat (bitlen d - 1)) :: rat) \<le> of_int d" using d1 by (simp only: of_int_le_iff)
    then show ?thesis using bd by (simp add: pow2_def)
  qed
  have D2: "of_int d < pow2 (bitlen d)"
  proof -
    have "(of_int d :: rat) < of_int ((2::int) ^ nat (bitlen d))" using d2 by (simp only: of_int_less_iff)
    then show ?thesis using bd by (simp add: pow2_def)
  qed
  have dpos: "(0::rat) < of_int d" using d by simp
  have lo: "pow2 (?k - 1) < a"
  proof -
    have "pow2 (?k - 1) = pow2 (bitlen n - 1) / pow2 (bitlen d)"
      by (simp add: pow2_diff [symmetric] algebra_simps)
    also have "\<dots> \<le> of_int n / pow2 (bitlen d)"
      using N1 by (intro divide_right_mono) simp_all
    also have "\<dots> < of_int n / of_int d"
      using D2 dpos n by (intro divide_strict_left_mono) simp_all
    finally show ?thesis by (simp add: a)
  qed
  have hi: "a < pow2 (?k + 1)"
  proof -
    have "a = of_int n / of_int d" by (rule a)
    also have "\<dots> < pow2 (bitlen n) / of_int d"
      using N2 dpos by (intro divide_strict_right_mono) simp_all
    also have "\<dots> \<le> pow2 (bitlen n) / pow2 (bitlen d - 1)"
      using D1 dpos by (intro divide_left_mono) (simp_all add: zero_less_mult_iff)
    also have "\<dots> = pow2 (?k + 1)"
      by (simp add: pow2_diff [symmetric] algebra_simps)
    finally show ?thesis .
  qed
  have e: "expo a = (if pow2 ?k \<le> a then ?k else ?k - 1)"
    by (simp add: expo_def q Let_def)
  show "pow2 (expo a) \<le> a"
    using lo by (simp add: e)
  show "a < pow2 (expo a + 1)"
    using hi by (auto simp: e)
qed

lemma expo_unique:
  assumes "0 < a" and "pow2 e \<le> a" and "a < pow2 (e + 1)"
  shows "expo a = e"
proof -
  from expo_bounds [OF assms(1)] assms(2,3)
  have "pow2 (expo a) < pow2 (e + 1)" and "pow2 e < pow2 (expo a + 1)"
    by linarith+
  then show ?thesis by (simp add: pow2_less_iff)
qed

lemma expo_mono:
  assumes "0 < a" and "a \<le> b"
  shows "expo a \<le> expo b"
proof -
  have "0 < b" using assms by linarith
  from expo_bounds [OF assms(1)] expo_bounds [OF this] assms(2)
  have "pow2 (expo a) < pow2 (expo b + 1)" by linarith
  then show ?thesis by (simp add: pow2_less_iff)
qed

lemma rte_bounds: "\<lfloor>q\<rfloor> \<le> roundTiesToEven q" "roundTiesToEven q \<le> \<lfloor>q\<rfloor> + 1"
  by (simp_all add: roundTiesToEven_def Let_def)

lemma rte_err: "\<bar>of_int (roundTiesToEven q) - q\<bar> \<le> 1 / 2"
proof -
  have "of_int \<lfloor>q\<rfloor> \<le> q" "q < of_int \<lfloor>q\<rfloor> + 1" by linarith+
  then show ?thesis
    by (auto simp: roundTiesToEven_def Let_def abs_le_iff)
qed

lemma rte_of_int [simp]: "roundTiesToEven (of_int n) = n"
  by (simp add: roundTiesToEven_def)

lemma rte_half_even: "even n \<Longrightarrow> roundTiesToEven (of_int n + 1 / 2) = n"
proof -
  have "\<lfloor>rat_of_int n + 1 / 2\<rfloor> = n" by linarith
  then show "even n \<Longrightarrow> roundTiesToEven (of_int n + 1 / 2) = n"
    by (simp add: roundTiesToEven_def Let_def)
qed

lemma rte_mono:
  assumes "q \<le> r"
  shows "roundTiesToEven q \<le> roundTiesToEven r"
proof (cases "\<lfloor>q\<rfloor> = \<lfloor>r\<rfloor>")
  case True
  with assms have "q - of_int \<lfloor>q\<rfloor> \<le> r - of_int \<lfloor>r\<rfloor>" by simp
  then show ?thesis
    using True by (auto simp: roundTiesToEven_def Let_def)
next
  case False
  from assms have "\<lfloor>q\<rfloor> \<le> \<lfloor>r\<rfloor>" by (rule floor_mono)
  with False have "\<lfloor>q\<rfloor> + 1 \<le> \<lfloor>r\<rfloor>" by simp
  with rte_bounds(2) [of q] rte_bounds(1) [of r] show ?thesis by linarith
qed

lemma to_double_zero [simp]: "to_double 0 = 0"
  by (simp add: to_double_def)

lemma to_double_pos_eq:
  "0 < a \<Longrightarrow> to_double a =
     of_int (roundTiesToEven (a / pow2 (expo a - 52))) * pow2 (expo a - 52)"
  by (simp add: to_double_def expo_def Let_def)

lemma to_double_minus: "to_double (- q) = - to_double q"
  by (cases "q = 0") (auto simp: to_double_def Let_def)

lemma scaled_bounds:
  assumes "0 < a"
  shows "2 ^ 52 \<le> a / pow2 (expo a - 52)" and "a / pow2 (expo a - 52) < 2 ^ 53"
proof -
  have u: "pow2 (expo a - 52) * 2 ^ 52 = pow2 (expo a)"
    using pow2_add [of "expo a - 52" 52] by (simp add: pow2_52)
  have v: "pow2 (expo a - 52) * 2 ^ 53 = pow2 (expo a + 1)"
    using pow2_add [of "expo a - 52" 53] by (simp add: pow2_53 add.commute)
  show "2 ^ 52 \<le> a / pow2 (expo a - 52)"
    using expo_bounds(1) [OF assms] u by (simp add: le_divide_eq mult.commute)
  show "a / pow2 (expo a - 52) < 2 ^ 53"
    using expo_bounds(2) [OF assms] v by (simp add: divide_less_eq mult.commute)
qed

lemma to_double_range:
  assumes "0 < a"
  shows "pow2 (expo a) \<le> to_double a" and "to_double a \<le> pow2 (expo a + 1)"
proof -
  let ?u = "pow2 (expo a - 52)"
  let ?m = "roundTiesToEven (a / ?u)"
  have u: "2 ^ 52 * ?u = pow2 (expo a)"
    using pow2_add [of "expo a - 52" 52] by (simp add: pow2_52)
  have v: "2 ^ 53 * ?u = pow2 (expo a + 1)"
    using pow2_add [of "expo a - 52" 53] by (simp add: pow2_53 add.commute)
  have "roundTiesToEven (of_int (2 ^ 52)) \<le> ?m"
    using scaled_bounds(1) [OF assms] by (intro rte_mono) simp
  then have lo: "(2 ^ 52 :: rat) \<le> of_int ?m"
    by (simp only: rte_of_int) (metis of_int_le_iff of_int_numeral of_int_power)
  have "?m \<le> roundTiesToEven (of_int (2 ^ 53))"
    using scaled_bounds(2) [OF assms] by (intro rte_mono) simp
  then have hi: "of_int ?m \<le> (2 ^ 53 :: rat)"
    by (simp only: rte_of_int) (metis of_int_le_iff of_int_numeral of_int_power)
  have "2 ^ 52 * ?u \<le> of_int ?m * ?u"
    using lo by (intro mult_right_mono) simp_all
  then show "pow2 (expo a) \<le> to_double a"
    by (simp only: u to_double_pos_eq [OF assms])
  have "of_int ?m * ?u \<le> 2 ^ 53 * ?u"
    using hi by (intro mult_right_mono) simp_all
  then show "to_double a \<le> pow2 (expo a + 1)"
    by (simp only: v to_double_pos_eq [OF assms])
qed

lemma to_double_pos: "0 < a \<Longrightarrow> 0 < to_double a"
  using to_double_range(1) [of a] pow2_pos [of "expo a"] by linarith

lemma to_double_err:
  assumes "0 < a"
  shows "\<bar>to_double a - a\<bar> \<le> pow2 (expo a - 53)"
proof -
  let ?u = "pow2 (expo a - 52)"
  let ?m = "roundTiesToEven (a / ?u)"
  have h: "?u / 2 = pow2 (expo a - 53)"
    using pow2_Suc [of "expo a - 53"] by simp
  have "\<bar>to_double a - a\<bar> = \<bar>of_int ?m - a / ?u\<bar> * ?u"
  proof -
    have "to_double a - a = (of_int ?m - a / ?u) * ?u"
      by (simp add: to_double_pos_eq [OF assms] algebra_simps)
    then show ?thesis by (simp add: abs_mult)
  qed
  also have "\<dots> \<le> (1 / 2) * ?u"
    using rte_err [of "a / ?u"] by (intro mult_right_mono) simp_all
  finally show ?thesis using h by simp
qed

lemma to_double_mono_pos:
  assumes "0 < a" and "a \<le> b"
  shows "to_double a \<le> to_double b"
proof -
  have b: "0 < b" using assms by linarith
  have le: "expo a \<le> expo b" by (rule expo_mono [OF assms])
  show ?thesis
  proof (cases "expo a = expo b")
    case True
    have "a / pow2 (expo b - 52) \<le> b / pow2 (expo b - 52)"
      using assms(2) by (intro divide_right_mono) simp_all
    then have "roundTiesToEven (a / pow2 (expo b - 52)) \<le> roundTiesToEven (b / pow2 (expo b - 52))"
      by (rule rte_mono)
    then have "rat_of_int (roundTiesToEven (a / pow2 (expo b - 52))) * pow2 (expo b - 52)
        \<le> of_int (roundTiesToEven (b / pow2 (expo b - 52))) * pow2 (expo b - 52)"
      by (intro mult_right_mono) simp_all
    then show ?thesis
      by (simp add: to_double_pos_eq [OF assms(1)] to_double_pos_eq [OF b] True)
  next
    case False
    with le have "expo a + 1 \<le> expo b" by simp
    then have "pow2 (expo a + 1) \<le> pow2 (expo b)" by (rule pow2_mono)
    with to_double_range(2) [OF assms(1)] to_double_range(1) [OF b] show ?thesis by linarith
  qed
qed

lemma to_double_nonneg: "0 \<le> a \<Longrightarrow> 0 \<le> to_double a"
  using to_double_pos [of a] by (cases "a = 0") (simp_all add: less_imp_le)

lemma to_double_mono:
  assumes "a \<le> b"
  shows "to_double a \<le> to_double b"
proof -
  consider "0 < a" | "a \<le> 0" "0 \<le> b" | "b < 0" by linarith
  then show ?thesis
  proof cases
    case 1
    then show ?thesis by (rule to_double_mono_pos [OF _ assms])
  next
    case 2
    from 2(1) have "0 \<le> to_double (- a)" by (intro to_double_nonneg) simp
    then have "to_double a \<le> 0" by (simp add: to_double_minus)
    with to_double_nonneg [OF 2(2)] show ?thesis by linarith
  next
    case 3
    then have "0 < - b" "- b \<le> - a" using assms by simp_all
    then have "to_double (- b) \<le> to_double (- a)" by (rule to_double_mono_pos)
    then show ?thesis by (simp add: to_double_minus)
  qed
qed

lemma to_double_err_rel:
  assumes "0 < a"
  shows "\<bar>to_double a - a\<bar> \<le> a / 2 ^ 53" and "\<bar>to_double a - a\<bar> \<le> to_double a / 2 ^ 53"
proof -
  have h: "pow2 (expo a - 53) = pow2 (expo a) / 2 ^ 53"
    by (simp add: pow2_diff pow2_53)
  have "pow2 (expo a) / 2 ^ 53 \<le> a / 2 ^ 53"
    using expo_bounds(1) [OF assms] by (intro divide_right_mono) simp_all
  with to_double_err [OF assms] h show "\<bar>to_double a - a\<bar> \<le> a / 2 ^ 53" by linarith
  have "pow2 (expo a) / 2 ^ 53 \<le> to_double a / 2 ^ 53"
    using to_double_range(1) [OF assms] by (intro divide_right_mono) simp_all
  with to_double_err [OF assms] h show "\<bar>to_double a - a\<bar> \<le> to_double a / 2 ^ 53" by linarith
qed

text \<open>A multiple of the unit in the last place of its binade is a binary64 value.\<close>

lemma to_double_multiple:
  assumes "0 < a" and "a = of_int m * pow2 (expo a - 52)"
  shows "to_double a = a"
proof -
  have "a / pow2 (expo a - 52) = of_int m"
    using assms(2) by (simp add: divide_eq_eq)
  then show ?thesis
    using assms(2) by (simp add: to_double_pos_eq [OF assms(1)])
qed

lemma significand_of_nat:
  assumes "0 < n" and "n < 2 ^ 53"
  shows "expo (of_nat n) \<le> 52"
    and "of_nat n = of_int (int n * 2 ^ nat (52 - expo (of_nat n))) * pow2 (expo (of_nat n) - 52)"
proof -
  let ?a = "of_nat n :: rat"
  have a: "0 < ?a" using assms(1) by simp
  have "?a < 2 ^ 53" using assms(2) by (metis of_nat_less_iff of_nat_numeral of_nat_power)
  with expo_bounds(1) [OF a] have "pow2 (expo ?a) < pow2 53" by (simp add: pow2_53)
  then show e: "expo ?a \<le> 52" by (simp add: pow2_less_iff)
  then have "pow2 (52 - expo ?a) = 2 ^ nat (52 - expo ?a)" by (simp add: pow2_def)
  moreover have "pow2 (52 - expo ?a) * pow2 (expo ?a - 52) = 1"
    using pow2_add [of "52 - expo ?a" "expo ?a - 52"] by (simp add: pow2_def)
  ultimately have "(2 ^ nat (52 - expo ?a) :: rat) * pow2 (expo ?a - 52) = 1" by simp
  then show "?a = of_int (int n * 2 ^ nat (52 - expo ?a)) * pow2 (expo ?a - 52)"
    by (simp add: mult.assoc)
qed

lemma to_double_of_nat: "n < 2 ^ 53 \<Longrightarrow> to_double (of_nat n) = of_nat n"
proof (cases "n = 0")
  case False
  assume "n < 2 ^ 53"
  with False have n: "0 < n" "n < 2 ^ 53" by simp_all
  show ?thesis
    by (rule to_double_multiple [OF _ significand_of_nat(2) [OF n]]) (use n in simp)
qed simp

lemma to_double_numeral [simp]:
  "numeral k < (2 ^ 53 :: nat) \<Longrightarrow> to_double (numeral k) = numeral k"
  using to_double_of_nat [of "numeral k"] by simp

lemma to_double_neg_numeral [simp]:
  "numeral k < (2 ^ 53 :: nat) \<Longrightarrow> to_double (- numeral k) = - numeral k"
  by (simp add: to_double_minus)

lemma to_double_one [simp]: "to_double 1 = 1"
  using to_double_of_nat [of 1] by simp

text \<open>
  Rounding \<open>c - w\<close> and adding \<open>w\<close> back does not get above an integer \<open>c\<close> below \<open>2^52\<close>:
  the sum is at most half a unit in the last place above \<open>c\<close>, and the significand of
  \<open>c\<close> is even.
\<close>

lemma to_double_half_ulp:
  assumes "0 < n" and "n < 2 ^ 52"
  shows "to_double (of_nat n + pow2 (expo (of_nat n) - 53)) = of_nat n"
proof -
  define c :: rat where "c = of_nat n"
  define e where "e = expo c"
  define u where "u = pow2 (e - 52)"
  define M where "M = int n * 2 ^ nat (52 - e)"
  define a where "a = c + u / 2"
  have c: "0 < c" using assms(1) by (simp add: c_def)
  have u: "0 < u" by (simp add: u_def)
  have n53: "n < 2 ^ 53" using assms(2) by simp
  have "c < 2 ^ 52"
    unfolding c_def using assms(2) by (metis of_nat_less_iff of_nat_numeral of_nat_power)
  with expo_bounds(1) [OF c] have "pow2 e < pow2 52" by (simp add: pow2_52 e_def)
  then have e: "e \<le> 51" by (simp add: pow2_less_iff)
  have cM: "c = of_int M * u"
    unfolding M_def u_def e_def c_def by (rule significand_of_nat(2) [OF assms(1) n53])
  have "nat (52 - e) = Suc (nat (51 - e))" using e by simp
  then have evenM: "even M" by (simp add: M_def)
  have half: "pow2 (e - 53) = u / 2"
    unfolding u_def using pow2_Suc [of "e - 53"] by simp
  have a: "0 < a" using c u by (simp add: a_def add_pos_pos)
  have top: "pow2 (e + 1) = 2 ^ 53 * u"
    unfolding u_def using pow2_add [of "e - 52" 53] by (simp add: pow2_53 add.commute)
  have "c < pow2 (e + 1)" unfolding e_def by (rule expo_bounds(2) [OF c])
  then have "of_int M * u < 2 ^ 53 * u" by (simp only: cM top)
  then have "rat_of_int M < 2 ^ 53" using u by (simp add: mult_less_cancel_right)
  then have "M < 2 ^ 53" by (metis of_int_less_iff of_int_numeral of_int_power)
  then have "M + 1 \<le> 2 ^ 53" by simp
  then have "rat_of_int (M + 1) \<le> 2 ^ 53" by (metis of_int_le_iff of_int_numeral of_int_power)
  then have "rat_of_int (M + 1) * u \<le> 2 ^ 53 * u"
    using u by (intro mult_right_mono) simp_all
  then have "rat_of_int M * u + u \<le> pow2 (e + 1)"
    by (simp only: top of_int_add of_int_1 distrib_right mult_1)
  then have "c + u \<le> pow2 (e + 1)" by (simp only: cM)
  moreover have "u / 2 < u" using u by simp
  ultimately have hi: "a < pow2 (e + 1)" unfolding a_def by linarith
  have "pow2 e \<le> c" unfolding e_def by (rule expo_bounds(1) [OF c])
  then have lo: "pow2 e \<le> a" using u by (simp add: a_def)
  have ea: "expo a = e" by (rule expo_unique [OF a lo hi])
  have "a / u = of_int M + 1 / 2"
    using u by (simp add: a_def cM add_divide_distrib)
  then have "roundTiesToEven (a / u) = M"
    using rte_half_even [OF evenM] by simp
  then have "to_double a = of_int M * u"
    by (simp add: to_double_pos_eq [OF a] ea u_def)
  then show ?thesis
    by (simp only: cM [symmetric]) (simp add: a_def c_def half [symmetric] e_def)
qed

lemma round_back:
  assumes "n < 2 ^ 52" and "0 \<le> w" and "w \<le> of_nat n"
  shows "to_double (to_double (of_nat n - w) + w) \<le> of_nat n"
proof (cases "w = of_nat n")
  case True
  then show ?thesis
    using assms(1) by (simp add: to_double_of_nat)
next
  case False
  let ?c = "of_nat n :: rat"
  from False assms have d: "0 < ?c - w" by simp
  then have c: "0 < ?c" using assms(2) by linarith
  then have n: "0 < n" by simp
  have "expo (?c - w) \<le> expo ?c"
    using assms(2) by (intro expo_mono [OF d]) simp
  then have "pow2 (expo (?c - w) - 53) \<le> pow2 (expo ?c - 53)"
    by (intro pow2_mono) simp
  with to_double_err [OF d] have "to_double (?c - w) - (?c - w) \<le> pow2 (expo ?c - 53)"
    by (simp add: abs_le_iff)
  then have "to_double (?c - w) + w \<le> ?c + pow2 (expo ?c - 53)" by linarith
  then have "to_double (to_double (?c - w) + w) \<le> to_double (?c + pow2 (expo ?c - 53))"
    by (rule to_double_mono)
  then show ?thesis
    by (simp add: to_double_half_ulp [OF n assms(1)])
qed

section \<open>The loop, pixel by pixel\<close>

lemma length_processImage_body [simp]: "length (processImage_body p i d) = length d"
  by (simp add: processImage_body_def Let_def)

lemma body_pixel:
  assumes "i = 4 * m" and "4 * m + 3 < length d"
  shows "pixel (processImage_body p i d) k = (if k = m then thresholded p (pixel d k) else pixel d k)"
proof (cases "k = m")
  case True
  with assms show ?thesis
    by (simp add: processImage_body_def Let_def read_at_def luminance_def js_gt_def js_lt_def
        pixel_def thresholded_def is_background_def lum_of_def alpha_of_def ink_def cleared_def)
next
  case False
  then have "4 * k + 3 < 4 * m \<or> 4 * m + 3 < 4 * k" by arith
  with False assms show ?thesis
    by (auto simp: processImage_body_def Let_def pixel_def nth_list_update)
qed

lemma loop_length [simp]: "length (processImage_loop p i d) = length d"
proof (induction p i d rule: processImage_loop.induct)
  case (1 p i d)
  then show ?case
    by (subst processImage_loop.simps) simp
qed

lemma loop_pixel:
  assumes "length d = 4 * n" and "k < n"
  shows "pixel (processImage_loop p (4 * m) d) k =
         (if k < m then pixel d k else thresholded p (pixel d k))"
  using assms
proof (induction p "4 * m" d arbitrary: m rule: processImage_loop.induct)
  case (1 p d m)
  show ?case
  proof (cases "4 * m < length d")
    case False
    with 1 show ?thesis
      by (subst processImage_loop.simps) auto
  next
    case True
    with "1.prems" have in_range: "4 * m + 3 < length d" by arith
    have step: "4 * m + 4 = 4 * Suc m" by simp
    have "pixel (processImage_loop p (4 * Suc m) (processImage_body p (4 * m) d)) k =
          (if k < Suc m then pixel (processImage_body p (4 * m) d) k
           else thresholded p (pixel (processImage_body p (4 * m) d) k))"
      using "1.hyps" [OF True step] "1.prems" by simp
    moreover have "pixel (processImage_body p (4 * m) d) k =
          (if k = m then thresholded p (pixel d k) else pixel d k)"
      by (rule body_pixel [OF refl in_range])
    ultimately show ?thesis
      using True by (subst processImage_loop.simps) (auto simp: step)
  qed
qed

lemma processImage_pixel:
  assumes "wellformed img" and "k < img_width img * img_height img"
  shows "pixel (img_data (processImage p img)) k = thresholded p (pixel (img_data img) k)"
proof -
  from assms(1) have len: "length (img_data img) = 4 * (img_width img * img_height img)"
    by (simp add: wellformed_def)
  from loop_pixel [OF len assms(2), of p 0] show ?thesis
    by (simp add: processImage_def)
qed

lemma processImage_dims:
  "img_width (processImage p img) = img_width img"
  "img_height (processImage p img) = img_height img"
  "length (img_data (processImage p img)) = length (img_data img)"
  by (simp_all add: processImage_def)

lemma processImage_wellformed: "wellformed img \<Longrightarrow> wellformed (processImage p img)"
  by (simp add: wellformed_def processImage_dims)

lemma wellformed_example: "wellformed example_image"
  by (simp add: wellformed_def example_image_def)

lemma wellformed_grey: "wellformed grey_image"
  by (simp add: wellformed_def grey_image_def)

text \<open>
  The rounding at work: the literal \<open>0.299\<close> is the binary64 value
  \<open>5386305154335113 / 2^54\<close>; and for the colour \<open>(1, 113, 205)\<close>, where the exact value of
  \<open>0.299 r + 0.587 g + 0.114 b\<close> is 90, the computed luminance lies above 90, so that
  at threshold 90 the pixel is background.
\<close>

lemma to_double_literal: "to_double (299 / 1000) = 5386305154335113 / 2 ^ 54"
  by code_simp

lemma luminanceOf_tie:
  "299 * 1 + 587 * 113 + 114 * 205 = (1000 * 90 :: int) \<and> luminanceOf 1 113 205 > 90"
  by code_simp

text \<open>The luminance of the colours of the examples.\<close>

lemma luminanceOf_black: "luminanceOf 0 0 0 = 0"
  by (simp add: luminanceOf_def dmul_def dadd_def byte_num_def to_double_def)

lemma luminanceOf_10: "luminanceOf 10 10 10 = 10"
  by code_simp

lemma luminanceOf_250: "luminanceOf 250 250 250 = 250"
  by code_simp

lemma luminanceOf_210: "luminanceOf 210 210 210 = 210"
  by code_simp

lemmas luminanceOf_examples = luminanceOf_10 luminanceOf_250 luminanceOf_210

text \<open>The loop run on the example of the specification, byte by byte.\<close>

lemma processImage_example:
  "img_data (processImage default_params example_image) =
     [0, 0, 0, 255,  250, 250, 250, 0,  0, 0, 0, 0,  0, 0, 0, 255]"
  by (simp add: processImage_def example_image_def default_params_def processImage_loop.simps
      processImage_body_def read_at_def luminance_def js_gt_def js_lt_def Let_def
      luminanceOf_black luminanceOf_examples)

lemma processImage_grey:
  "img_data (processImage default_params grey_image) = [210, 210, 210, 0]"
  "img_data (processImage (default_params\<lparr>luminanceThreshold := 220\<rparr>) grey_image) = [0, 0, 0, 255]"
  by (simp_all add: processImage_def grey_image_def default_params_def processImage_loop.simps
      processImage_body_def read_at_def luminance_def js_gt_def js_lt_def Let_def
      luminanceOf_examples)

section \<open>Claims on thresholding\<close>

text \<open>
  C1, as stated: every pixel of the returned buffer is \<open>(0,0,0,0)\<close> or \<open>(0,0,0,255)\<close>, a
  background pixel having its red, green and blue bytes set to 0. The loop writes only
  the alpha byte of a background pixel (line 203). On the 4 by 1 example of the
  specification, the second pixel \<open>(250,250,250,255)\<close> is background by the luminance test
  and comes out as \<open>(250,250,250,0)\<close>, which is neither of the two states.
\<close>

theorem threshold_two_states_counterexample:
  "wellformed example_image \<and>
   is_background default_params (pixel (img_data example_image) 1) \<and>
   pixel (img_data (processImage default_params example_image)) 1 = (250, 250, 250, 0) \<and>
   pixel (img_data (processImage default_params example_image)) 1 \<noteq> (0, 0, 0, 0) \<and>
   pixel (img_data (processImage default_params example_image)) 1 \<noteq> (0, 0, 0, 255)"
  by (simp add: wellformed_example processImage_example pixel_def)
    (simp add: example_image_def default_params_def is_background_def lum_of_def
      luminanceOf_examples)

text \<open>
  C1, amended: for every well-formed input buffer and any thresholds, the returned buffer
  has the width, height and length of the input, and every pixel of it is either ink
  \<open>(0,0,0,255)\<close>, when the input pixel passes both tests, or the input pixel with its alpha
  byte set to 0 and its red, green and blue bytes as they were, when the input pixel is
  background (luminance above \<open>luminanceThreshold\<close> or alpha below \<open>alphaThreshold\<close>).
\<close>

theorem threshold_pixels:
  assumes "wellformed img"
  shows "img_width (processImage p img) = img_width img \<and>
         img_height (processImage p img) = img_height img \<and>
         length (img_data (processImage p img)) = length (img_data img) \<and>
         (\<forall>k < img_width img * img_height img.
            pixel (img_data (processImage p img)) k =
              (if is_background p (pixel (img_data img) k)
               then cleared (pixel (img_data img) k) else ink))"
  using processImage_pixel [OF assms] by (simp add: processImage_dims thresholded_def)

theorem threshold_pixels_witness:
  "wellformed example_image \<and>
   length (img_data (processImage default_params example_image)) = 16 \<and>
   pixel (img_data (processImage default_params example_image)) 0 = (0, 0, 0, 255) \<and>
   pixel (img_data (processImage default_params example_image)) 1 = (250, 250, 250, 0) \<and>
   pixel (img_data (processImage default_params example_image)) 2 = (0, 0, 0, 0) \<and>
   pixel (img_data (processImage default_params example_image)) 3 = (0, 0, 0, 255)"
proof -
  have bg: "\<not> is_background default_params (pixel (img_data example_image) 0)"
           "is_background default_params (pixel (img_data example_image) (Suc 0))"
           "is_background default_params (pixel (img_data example_image) 2)"
           "\<not> is_background default_params (pixel (img_data example_image) 3)"
    by (simp_all add: example_image_def default_params_def pixel_def is_background_def
        lum_of_def alpha_of_def luminanceOf_examples luminanceOf_black)
  have px: "cleared (pixel (img_data example_image) (Suc 0)) = (250, 250, 250, 0)"
           "cleared (pixel (img_data example_image) 2) = (0, 0, 0, 0)"
    by (simp_all add: example_image_def pixel_def cleared_def)
  have n: "img_width example_image * img_height example_image = 4"
          "length (img_data example_image) = 16"
    by (simp_all add: example_image_def)
  from threshold_pixels [OF wellformed_example, of default_params]
  have len: "length (img_data (processImage default_params example_image)) = 16"
    and px_out: "k < 4 \<Longrightarrow> pixel (img_data (processImage default_params example_image)) k =
              (if is_background default_params (pixel (img_data example_image) k)
               then cleared (pixel (img_data example_image) k) else ink)" for k
    by (simp_all add: n)
  show ?thesis
    using px_out [of 0] px_out [of "Suc 0"] px_out [of 2] px_out [of 3]
    by (simp add: wellformed_example len bg px ink_def)
qed

text \<open>
  C2: for every well-formed input buffer and any thresholds, every pixel of the returned
  buffer has alpha 0 or 255, and where its alpha is 255 its red, green and blue are 0.
\<close>

theorem binarization_invariant:
  assumes "wellformed img" and "k < img_width img * img_height img"
  shows "case pixel (img_data (processImage p img)) k of
           (r, g, b, a) \<Rightarrow> (a = 0 \<or> a = 255) \<and> (a = 255 \<longrightarrow> r = 0 \<and> g = 0 \<and> b = 0)"
  using processImage_pixel [OF assms, of p]
  by (cases "pixel (img_data img) k") (simp add: thresholded_def cleared_def ink_def)

theorem binarization_invariant_witness:
  "wellformed example_image \<and> 1 < img_width example_image * img_height example_image \<and>
   (case pixel (img_data (processImage default_params example_image)) 1 of
      (r, g, b, a) \<Rightarrow> (a = 0 \<or> a = 255) \<and> (a = 255 \<longrightarrow> r = 0 \<and> g = 0 \<and> b = 0))"
proof -
  have k: "1 < img_width example_image * img_height example_image"
    by (simp add: example_image_def)
  from binarization_invariant [OF wellformed_example k, of default_params]
  show ?thesis
    using wellformed_example k by simp
qed

subsection \<open>Idempotence\<close>

lemma pixels_eqI:
  assumes "length d = 4 * n" and "length d' = 4 * n"
    and "\<And>k. k < n \<Longrightarrow> pixel d k = pixel d' k"
  shows "d = d'"
proof (rule nth_equalityI)
  show "length d = length d'" using assms by simp
next
  fix j assume "j < length d"
  then have k: "j div 4 < n" using assms(1) by simp
  have eq: "pixel d (j div 4) = pixel d' (j div 4)" by (rule assms(3) [OF k])
  have "j mod 4 = 0 \<or> j mod 4 = 1 \<or> j mod 4 = 2 \<or> j mod 4 = 3" by arith
  moreover have "j = 4 * (j div 4) + j mod 4" by simp
  ultimately show "d ! j = d' ! j"
    using eq unfolding pixel_def
    by (metis Pair_inject add.right_neutral)
qed

lemma cleared_background: "is_background p px \<Longrightarrow> is_background p (cleared px)"
proof (cases px)
  case (fields r g b a)
  assume "is_background p px"
  then have "lum_of px > of_int (luminanceThreshold p) \<or> uint a < alphaThreshold p"
    using fields by (simp add: is_background_def alpha_of_def)
  moreover have "0 \<le> uint a" by simp
  ultimately have "lum_of px > of_int (luminanceThreshold p) \<or> 0 < alphaThreshold p"
    by linarith
  then show ?thesis
    using fields by (simp add: is_background_def alpha_of_def lum_of_def cleared_def)
qed

lemma cleared_cleared: "cleared (cleared px) = cleared px"
  by (cases px) (simp add: cleared_def)

lemma ink_not_background:
  "0 \<le> luminanceThreshold p \<Longrightarrow> alphaThreshold p \<le> 255 \<Longrightarrow> \<not> is_background p ink"
  by (simp add: is_background_def ink_def lum_of_def alpha_of_def luminanceOf_black)

lemma thresholded_idem:
  assumes "0 \<le> luminanceThreshold p" and "alphaThreshold p \<le> 255"
  shows "thresholded p (thresholded p px) = thresholded p px"
proof (cases "is_background p px")
  case True
  then show ?thesis
    by (simp add: thresholded_def cleared_background cleared_cleared)
next
  case False
  then show ?thesis
    using ink_not_background [OF assms] by (simp add: thresholded_def)
qed

text \<open>
  C3: \<open>processImage\<close> is idempotent on well-formed buffers when both thresholds lie in
  \<open>[0, 255]\<close>: running it again on its own output with the same thresholds gives the same
  buffer. An ink pixel passes both tests again; a background pixel kept its red, green and
  blue, so it fails the same test again.
\<close>

theorem threshold_idempotent:
  assumes "wellformed img"
    and "0 \<le> luminanceThreshold p" and "luminanceThreshold p \<le> 255"
    and "0 \<le> alphaThreshold p" and "alphaThreshold p \<le> 255"
  shows "processImage p (processImage p img) = processImage p img"
proof -
  let ?n = "img_width img * img_height img"
  let ?out = "processImage p img"
  have wf: "wellformed ?out" by (rule processImage_wellformed [OF assms(1)])
  have len: "length (img_data ?out) = 4 * ?n"
    using assms(1) by (simp add: wellformed_def processImage_dims)
  have "img_data (processImage p ?out) = img_data ?out"
  proof (rule pixels_eqI [where n = ?n])
    show "length (img_data (processImage p ?out)) = 4 * ?n"
      using len by (simp add: processImage_dims)
    show "length (img_data ?out) = 4 * ?n" by (rule len)
  next
    fix k assume k: "k < ?n"
    then have "k < img_width ?out * img_height ?out" by (simp add: processImage_dims)
    from processImage_pixel [OF wf this, of p]
    show "pixel (img_data (processImage p ?out)) k = pixel (img_data ?out) k"
      by (simp add: processImage_pixel [OF assms(1) k] thresholded_idem [OF assms(2) assms(5)])
  qed
  then show ?thesis
    by (simp add: processImage_def)
qed

theorem threshold_idempotent_witness:
  "wellformed example_image \<and>
   0 \<le> luminanceThreshold default_params \<and> luminanceThreshold default_params \<le> 255 \<and>
   0 \<le> alphaThreshold default_params \<and> alphaThreshold default_params \<le> 255 \<and>
   processImage default_params (processImage default_params example_image) =
     processImage default_params example_image"
proof -
  have b: "0 \<le> luminanceThreshold default_params" "luminanceThreshold default_params \<le> 255"
          "0 \<le> alphaThreshold default_params" "alphaThreshold default_params \<le> 255"
    by (simp_all add: default_params_def)
  from threshold_idempotent [OF wellformed_example b] show ?thesis
    using wellformed_example b by simp
qed

subsection \<open>Raising the luminance threshold\<close>

text \<open>
  C4, as stated, says in its second half that raising \<open>luminanceThreshold\<close> never turns a
  pixel that was background purely by the luminance test into ink. The one-pixel image
  \<open>(210,210,210,255)\<close>, with \<open>alphaThreshold\<close> 50: at threshold 200 the pixel is background,
  and not by the alpha test; at threshold 220 it is ink.
\<close>

theorem luminance_monotone_counterexample:
  "wellformed grey_image \<and>
   luminanceThreshold default_params \<le> 220 \<and>
   \<not> int (unat (alpha_of (pixel (img_data grey_image) 0))) < alphaThreshold default_params \<and>
   pixel (img_data (processImage default_params grey_image)) 0 = (210, 210, 210, 0) \<and>
   pixel (img_data (processImage (default_params\<lparr>luminanceThreshold := 220\<rparr>) grey_image)) 0
     = (0, 0, 0, 255)"
  by (simp add: wellformed_grey processImage_grey pixel_def)
    (simp add: grey_image_def default_params_def alpha_of_def)

text \<open>
  C4, amended: for a fixed input buffer and fixed \<open>alphaThreshold\<close>, raising
  \<open>luminanceThreshold\<close> from \<open>t\<close> to \<open>t'\<close> never converts a pixel classified as ink (output
  alpha 255) into background (output alpha 0), so the set of background pixels shrinks or
  stays equal; a pixel that is background by the alpha test is background at every
  threshold; and a pixel that was background purely by the luminance test is ink at the
  raised threshold exactly when its luminance is at most \<open>t'\<close>.
\<close>

theorem luminance_monotone:
  assumes "wellformed img" and "k < img_width img * img_height img"
    and "luminanceThreshold p \<le> t'"
  shows
    "(alpha_of (pixel (img_data (processImage p img)) k) = 255 \<longrightarrow>
        alpha_of (pixel (img_data (processImage (p\<lparr>luminanceThreshold := t'\<rparr>) img)) k) = 255) \<and>
     (alpha_of (pixel (img_data (processImage (p\<lparr>luminanceThreshold := t'\<rparr>) img)) k) = 0 \<longrightarrow>
        alpha_of (pixel (img_data (processImage p img)) k) = 0) \<and>
     (int (unat (alpha_of (pixel (img_data img) k))) < alphaThreshold p \<longrightarrow>
        alpha_of (pixel (img_data (processImage (p\<lparr>luminanceThreshold := t'\<rparr>) img)) k) = 0) \<and>
     (alpha_of (pixel (img_data (processImage p img)) k) = 0 \<and>
      \<not> int (unat (alpha_of (pixel (img_data img) k))) < alphaThreshold p \<longrightarrow>
        (alpha_of (pixel (img_data (processImage (p\<lparr>luminanceThreshold := t'\<rparr>) img)) k) = 255
           \<longleftrightarrow> lum_of (pixel (img_data img) k) \<le> of_int t'))"
proof -
  have le: "(of_int (luminanceThreshold p) :: rat) \<le> of_int t'"
    using assms(3) by simp
  have a: "alpha_of (thresholded q px) = (if is_background q px then 0 else 255)" for q px
    by (cases px) (simp add: thresholded_def cleared_def ink_def alpha_of_def)
  show ?thesis
    using le
    by (auto simp: processImage_pixel [OF assms(1,2)] a is_background_def)
qed

theorem luminance_monotone_witness:
  "wellformed grey_image \<and> 0 < img_width grey_image * img_height grey_image \<and>
   luminanceThreshold default_params \<le> 220 \<and>
   alpha_of (pixel (img_data (processImage default_params grey_image)) 0) = 0 \<and>
   alpha_of (pixel (img_data (processImage (default_params\<lparr>luminanceThreshold := 220\<rparr>) grey_image)) 0)
     = 255 \<and>
   lum_of (pixel (img_data grey_image) 0) \<le> 220"
proof -
  have k: "0 < img_width grey_image * img_height grey_image"
    by (simp add: grey_image_def)
  have t: "luminanceThreshold default_params \<le> 220"
    by (simp add: default_params_def)
  have l: "lum_of (pixel (img_data grey_image) 0) = 210"
    by (simp add: grey_image_def pixel_def lum_of_def luminanceOf_examples)
  have a: "\<not> int (unat (alpha_of (pixel (img_data grey_image) 0))) < alphaThreshold default_params"
    by (simp add: grey_image_def pixel_def alpha_of_def default_params_def)
  have o: "alpha_of (pixel (img_data (processImage default_params grey_image)) 0) = 0"
    by (simp add: processImage_grey pixel_def alpha_of_def)
  from luminance_monotone [OF wellformed_grey k t] show ?thesis
    using wellformed_grey k t l a o by simp
qed

section \<open>Claims on the crop rectangle\<close>

subsection \<open>Basic facts\<close>

lemma half_handle [simp]: "ddiv HANDLE_SIZE 2 = 6"
  by (simp add: ddiv_def HANDLE_SIZE_def)

lemma word32_double: "to_double (of_nat (unat w)) = of_nat (unat w)" for w :: "32 word"
proof (rule to_double_of_nat)
  have "unat w < 2 ^ 32" using unsigned_less [of w, where ?'a = nat] by simp
  then show "unat w < 2 ^ 53" by simp
qed

lemma canvas_double:
  "to_double (canvasWidth canvas) = canvasWidth canvas"
  "to_double (canvasHeight canvas) = canvasHeight canvas"
  unfolding canvasWidth_def canvasHeight_def by (rule word32_double)+

lemma canvas_nonneg [simp]: "0 \<le> canvasWidth canvas" "0 \<le> canvasHeight canvas"
  by (simp_all only: canvasWidth_def canvasHeight_def of_nat_0_le_iff)

lemma isInsideHandle_zone:
  "isInsideHandle (pt_x pt) (pt_y pt) cx cy = in_hit_zone pt cx cy"
  by (auto simp: isInsideHandle_def in_hit_zone_def)

lemma normalizeCrop_fields:
  "crop_x (normalizeCrop r) = (if crop_width r < 0 then dadd (crop_x r) (crop_width r) else crop_x r)"
  "crop_y (normalizeCrop r) = (if crop_height r < 0 then dadd (crop_y r) (crop_height r) else crop_y r)"
  "crop_width (normalizeCrop r) = \<bar>crop_width r\<bar>"
  "crop_height (normalizeCrop r) = \<bar>crop_height r\<bar>"
  by (simp_all add: normalizeCrop_def Let_def)

text \<open>The binary64 values of the counterexamples.\<close>

lemma double_201_10: "to_double (201 / 10) = 2828823515942093 / 140737488355328"
  by code_simp

lemma thin_width_value: "thin_width = 14073748835533 / 140737488355328"
  unfolding thin_width_def double_201_10 by code_simp

lemma thin_left: "dsub 200 (14073748835533 / 140737488355328) = 7033355980557517 / 35184372088832"
  by code_simp

lemma thin_sum:
  "dadd (7033355980557517 / 35184372088832) (14073748835533 / 140737488355328) = 200"
  by code_simp

lemma thin_right: "dadd 20 (14073748835533 / 140737488355328) = 2828823515942093 / 140737488355328"
  by code_simp

lemma sixteenth: "dsub (321 / 16) 20 = 1 / 16" "dsub 500 (1 / 16) = 7999 / 16"
  by code_simp+

lemma double_7_10: "to_double (7 / 10) = 3152519739159347 / 4503599627370496"
  by code_simp

lemma double_97_10: "to_double (97 / 10) = 2730307274093363 / 281474976710656"
  by code_simp

lemma narrow_right: "dadd (3152519739159347 / 4503599627370496) 9 = 2730307274093363 / 281474976710656"
  by code_simp

lemma flipped_width:
  "to_double (- (5000000000000113 / 10000000000000000)) = - (2251799813685299 / 4503599627370496)"
  by code_simp

lemma flipped_left: "dadd 151 (- (2251799813685299 / 4503599627370496)) = 301 / 2"
  by code_simp

lemma dops_int:
  "dadd (numeral m) (numeral n) = to_double (numeral m + numeral n)"
  "dsub (numeral m) (numeral n) = to_double (numeral m - numeral n)"
  "dadd 0 q = to_double q" "dadd p 0 = to_double p" "dsub p 0 = to_double p"
  "dsub 0 (numeral n) = to_double (- numeral n)"
  "dadd (- numeral m) (numeral n) = to_double (numeral n - numeral m)"
  "dsub (- numeral m) (numeral n) = to_double (- (numeral m + numeral n))"
  "dadd (numeral m) (- numeral n) = to_double (numeral m - numeral n)"
  by (simp_all add: dsub_def dadd_def)

lemma canvas_200_100 [simp]:
  "canvasWidth canvas_200_100 = 200" "canvasHeight canvas_200_100 = 100"
  by (simp_all add: canvasWidth_def canvasHeight_def canvas_200_100_def)

subsection \<open>Normalizing\<close>

lemma to_double_err_abs: "\<bar>to_double q - q\<bar> \<le> \<bar>q\<bar> / 2 ^ 53"
proof -
  consider "0 < q" | "q = 0" | "0 < - q" by linarith
  then show ?thesis
  proof cases
    case 1
    with to_double_err_rel(1) [OF 1] show ?thesis by simp
  next
    case 2
    then show ?thesis by simp
  next
    case 3
    have "\<bar>to_double (- q) - (- q)\<bar> \<le> (- q) / 2 ^ 53" by (rule to_double_err_rel(1) [OF 3])
    moreover have "\<bar>to_double (- q) - (- q)\<bar> = \<bar>to_double q - q\<bar>"
      unfolding to_double_minus by linarith
    moreover have "\<bar>q\<bar> = - q" using 3 by simp
    ultimately show ?thesis by simp
  qed
qed

text \<open>
  C7, as stated: \<open>normalizeCrop\<close> returns a rectangle that covers exactly the points of its
  argument. The shift \<open>x += width\<close> (line 81) is a binary64 sum. For the rectangle at
  \<open>x = 151\<close> of width \<open>-0.5000000000000113\<close> the sum rounds to \<open>150.5\<close>, above the exact
  left edge: the point at \<open>x = 150.5 - 10^-14\<close> is covered before and not after.
\<close>

theorem normalizeCrop_footprint_counterexample:
  "crop_width flipped_rect < 0 \<and>
   normalizeCrop flipped_rect = rect (301 / 2) 0 (2251799813685299 / 4503599627370496) 10 \<and>
   covers flipped_rect (point (301 / 2 - 1 / 100000000000000) 5) \<and>
   \<not> covers (normalizeCrop flipped_rect) (point (301 / 2 - 1 / 100000000000000) 5)"
proof -
  have n: "normalizeCrop flipped_rect = rect (301 / 2) 0 (2251799813685299 / 4503599627370496) 10"
    by (simp add: normalizeCrop_def flipped_rect_def rect_def Let_def flipped_width flipped_left)
  show ?thesis
    unfolding n by (simp add: flipped_rect_def flipped_width rect_def point_def covers_def)
qed

text \<open>
  C7, amended: for any rectangle, also one with negative width or height, \<open>normalizeCrop\<close>
  returns a rectangle whose width and height are the absolute values, so non-negative;
  where the width is negative, \<open>x\<close> becomes the binary64 sum \<open>x + width\<close>, and likewise \<open>y\<close>
  for the height. The new left and top edges are the exact ones up to the rounding of
  that sum (a relative error of at most \<open>2^-53\<close>), and the rectangle covers exactly the
  same points whenever the sums are exact.
\<close>

theorem normalizeCrop_footprint:
  "0 \<le> crop_width (normalizeCrop r) \<and> 0 \<le> crop_height (normalizeCrop r) \<and>
   crop_width (normalizeCrop r) = \<bar>crop_width r\<bar> \<and>
   crop_height (normalizeCrop r) = \<bar>crop_height r\<bar> \<and>
   crop_x (normalizeCrop r) =
     (if crop_width r < 0 then dadd (crop_x r) (crop_width r) else crop_x r) \<and>
   crop_y (normalizeCrop r) =
     (if crop_height r < 0 then dadd (crop_y r) (crop_height r) else crop_y r) \<and>
   \<bar>crop_x (normalizeCrop r) - min (crop_x r) (crop_x r + crop_width r)\<bar>
     \<le> \<bar>crop_x r + crop_width r\<bar> / 2 ^ 53 \<and>
   \<bar>crop_y (normalizeCrop r) - min (crop_y r) (crop_y r + crop_height r)\<bar>
     \<le> \<bar>crop_y r + crop_height r\<bar> / 2 ^ 53 \<and>
   ((crop_width r < 0 \<longrightarrow> dadd (crop_x r) (crop_width r) = crop_x r + crop_width r) \<and>
    (crop_height r < 0 \<longrightarrow> dadd (crop_y r) (crop_height r) = crop_y r + crop_height r) \<longrightarrow>
    (\<forall>pt. covers (normalizeCrop r) pt = covers r pt))"
proof -
  have edge: "\<bar>(if w < 0 then dadd x w else x) - min x (x + w)\<bar> \<le> \<bar>x + w\<bar> / 2 ^ 53"
    for x w :: rat
    using to_double_err_abs [of "x + w"] by (simp add: dadd_def min_def)
  have same: "\<forall>pt. covers (normalizeCrop r) pt = covers r pt"
    if "crop_width r < 0 \<longrightarrow> dadd (crop_x r) (crop_width r) = crop_x r + crop_width r"
      and "crop_height r < 0 \<longrightarrow> dadd (crop_y r) (crop_height r) = crop_y r + crop_height r"
    using that by (auto simp: normalizeCrop_fields covers_def)
  show ?thesis
    using edge [of "crop_width r" "crop_x r"] edge [of "crop_height r" "crop_y r"] same
    by (simp add: normalizeCrop_fields)
qed

theorem normalizeCrop_footprint_witness:
  "normalizeCrop (rect 10 10 (- 4) 6) = rect 6 10 4 6 \<and>
   dadd (crop_x (rect 10 10 (- 4) 6)) (crop_width (rect 10 10 (- 4) 6)) =
     crop_x (rect 10 10 (- 4) 6) + crop_width (rect 10 10 (- 4) 6) \<and>
   covers (rect 10 10 (- 4) 6) (point 7 12) \<and>
   covers (normalizeCrop (rect 10 10 (- 4) 6)) (point 7 12)"
proof -
  have n: "normalizeCrop (rect 10 10 (- 4) 6) = rect 6 10 4 6"
    by (simp add: normalizeCrop_def rect_def Let_def dops_int)
  have e: "dadd (crop_x (rect 10 10 (- 4) 6)) (crop_width (rect 10 10 (- 4) 6)) =
     crop_x (rect 10 10 (- 4) 6) + crop_width (rect 10 10 (- 4) 6)"
    by (simp add: rect_def dops_int)
  have h: "\<not> crop_height (rect 10 10 (- 4) 6) < 0" by (simp add: rect_def)
  have c: "covers (rect 10 10 (- 4) 6) (point 7 12)"
    by (simp add: covers_def rect_def point_def)
  from normalizeCrop_footprint [of "rect 10 10 (- 4) 6"] e h
  have "covers (normalizeCrop (rect 10 10 (- 4) 6)) (point 7 12) =
        covers (rect 10 10 (- 4) 6) (point 7 12)"
    by blast
  with n e c show ?thesis by simp
qed

subsection \<open>Containment in the canvas\<close>

text \<open>One axis of the boundary checks, for a canvas size \<open>c\<close> that is an integer below \<open>2^52\<close>.\<close>

lemma clamp_axis:
  fixes nx nw :: rat
  assumes k: "k < 2 ^ 52" and nw: "0 \<le> nw"
  defines "c \<equiv> of_nat k"
  defines "fx \<equiv> max 0 (min nx (dsub c nw))"
  defines "fw \<equiv> (if dadd fx nw > c then dsub c fx else nw)"
  shows "0 \<le> fx" and "fx \<le> c" and "0 \<le> fw" and "dadd fx fw \<le> c" and "fx + fw \<le> c + c / 2 ^ 53"
proof -
  have c0: "0 \<le> c" by (simp add: c_def)
  have cd: "to_double c = c" unfolding c_def using k by (intro to_double_of_nat) simp
  show fx0: "0 \<le> fx" by (simp add: fx_def)
  have "dsub c nw \<le> to_double c"
    unfolding dsub_def using nw by (intro to_double_mono) simp
  then show fxc: "fx \<le> c" using c0 by (simp add: fx_def cd min_le_iff_disj)
  have r0: "0 \<le> dsub c fx"
    unfolding dsub_def using fxc by (intro to_double_nonneg) simp
  show "0 \<le> fw" using nw r0 by (simp add: fw_def)
  have rb: "dadd fx (dsub c fx) \<le> c"
    using round_back [OF k, of fx] fx0 fxc unfolding dadd_def dsub_def c_def
    by (simp only: add.commute [of fx])
  show "dadd fx fw \<le> c" using rb by (simp add: fw_def)
  have slack: "0 \<le> c / 2 ^ 53" using c0 by simp
  show "fx + fw \<le> c + c / 2 ^ 53"
  proof (cases "dadd fx nw > c")
    case True
    then have fw: "fw = to_double (c - fx)" by (simp add: fw_def dsub_def)
    show ?thesis
    proof (cases "c - fx = 0")
      case True
      then have "fw = 0" by (simp add: fw)
      with True slack show ?thesis by linarith
    next
      case False
      with fxc have d: "0 < c - fx" by simp
      have "\<bar>to_double (c - fx) - (c - fx)\<bar> \<le> (c - fx) / 2 ^ 53"
        by (rule to_double_err_rel(1) [OF d])
      moreover have "(c - fx) / 2 ^ 53 \<le> c / 2 ^ 53"
        using fx0 by (intro divide_right_mono) simp_all
      ultimately show ?thesis unfolding fw by linarith
    qed
  next
    case False
    then have fw: "fw = nw" and le: "to_double (fx + nw) \<le> c" by (simp_all add: fw_def dadd_def)
    show ?thesis
    proof (cases "fx + nw \<le> c")
      case True
      with slack show ?thesis unfolding fw by linarith
    next
      case False
      then have gt: "c < fx + nw" by simp
      then have s: "0 < fx + nw" using c0 by linarith
      have "to_double c \<le> to_double (fx + nw)" using gt by (intro to_double_mono) simp
      with le have eq: "to_double (fx + nw) = c" unfolding cd by linarith
      have "\<bar>to_double (fx + nw) - (fx + nw)\<bar> \<le> to_double (fx + nw) / 2 ^ 53"
        by (rule to_double_err_rel(2) [OF s])
      then show ?thesis unfolding fw eq by linarith
    qed
  qed
qed

lemma boundaryChecks_contained:
  assumes "0 \<le> crop_width n" and "0 \<le> crop_height n"
  shows "contained_rounded canvas (boundaryChecks canvas n)"
proof -
  have b: "unat v < 2 ^ 52" for v :: "32 word"
  proof -
    have "unat v < 2 ^ 32" using unsigned_less [of v, where ?'a = nat] by simp
    then show ?thesis by simp
  qed
  from clamp_axis [where k = "unat (canvas_width canvas)" and nw = "crop_width n"
        and nx = "crop_x n", OF b assms(1)]
    clamp_axis [where k = "unat (canvas_height canvas)" and nw = "crop_height n"
        and nx = "crop_y n", OF b assms(2)]
  show ?thesis
    unfolding contained_rounded_def boundaryChecks_def Let_def canvasWidth_def canvasHeight_def
    by (simp only: CropRect.simps)
qed

lemma dragRect_Some: "\<exists>t. dragRect (Some m) offset start pt prev = Some t"
  by (cases m) (simp_all add: dragRect_def Let_def)

lemma updateDrag_rounded:
  "contained_rounded canvas (updateDrag (Some m) offset start canvas pt prev)"
proof -
  obtain t where t: "dragRect (Some m) offset start pt prev = Some t"
    using dragRect_Some by blast
  have "contained_rounded canvas (boundaryChecks canvas (normalizeCrop t))"
    by (rule boundaryChecks_contained) (simp_all add: normalizeCrop_fields)
  with t show ?thesis
    by (simp add: updateDrag_def)
qed

lemma updateDrag_thin:
  "updateDrag (Some Move) (point 0 0) (point 0 0) canvas_200_100 (point 500 0) thin_rect =
     rect (7033355980557517 / 35184372088832) 0 thin_width 70"
  by (simp add: updateDrag_def dragRect_def normalizeCrop_def boundaryChecks_def Let_def
      thin_rect_def thin_width_value rect_def point_def dops_int thin_left thin_sum)

text \<open>
  C5, as stated: every rectangle that the update returns has \<open>x + width \<le> canvasWidth\<close>.
  The rectangle of width \<open>20.1 - 20\<close> (drawn from \<open>(20, 0)\<close> to \<open>(20.1, 70)\<close>), moved
  towards \<open>x = 500\<close> on a canvas of 200 by 100: line 428 rounds \<open>200 - width\<close> up to
  \<open>199.9\<close>, the sum of line 434 rounds to 200, which is not above the canvas width, and
  the width is kept. The exact sum \<open>x + width\<close> is \<open>200 + 2^-47\<close>.
\<close>

theorem updateDrag_contained_counterexample:
  "updateDrag (Some Move) (point 0 0) (point 0 0) canvas_200_100 (point 500 0) thin_rect =
     rect (7033355980557517 / 35184372088832) 0 thin_width 70 \<and>
   thin_width = 14073748835533 / 140737488355328 \<and>
   crop_x (updateDrag (Some Move) (point 0 0) (point 0 0) canvas_200_100 (point 500 0) thin_rect) +
   crop_width (updateDrag (Some Move) (point 0 0) (point 0 0) canvas_200_100 (point 500 0) thin_rect)
     = 200 + 1 / 2 ^ 47 \<and>
   \<not> contained canvas_200_100
       (updateDrag (Some Move) (point 0 0) (point 0 0) canvas_200_100 (point 500 0) thin_rect)"
  unfolding updateDrag_thin
  by (simp add: thin_width_value rect_def contained_def)

text \<open>
  C5, amended: in each of the six drag modes, for any pointer position, any prior
  rectangle and any offset and start point of the session, the rectangle that the
  update returns has \<open>0 \<le> x\<close>, \<open>0 \<le> y\<close>, \<open>width \<ge> 0\<close> and \<open>height \<ge> 0\<close>, and it lies in
  the canvas as the code's own check sees it: the binary64 sums \<open>x + width\<close> and
  \<open>y + height\<close> do not exceed \<open>canvasWidth\<close> and \<open>canvasHeight\<close>. The exact sums exceed
  them by at most one rounding error, \<open>canvasWidth / 2^53\<close> and \<open>canvasHeight / 2^53\<close>.
\<close>

theorem updateDrag_contained:
  "0 \<le> crop_x (updateDrag (Some m) offset start canvas pt prev) \<and>
   0 \<le> crop_y (updateDrag (Some m) offset start canvas pt prev) \<and>
   0 \<le> crop_width (updateDrag (Some m) offset start canvas pt prev) \<and>
   0 \<le> crop_height (updateDrag (Some m) offset start canvas pt prev) \<and>
   dadd (crop_x (updateDrag (Some m) offset start canvas pt prev))
        (crop_width (updateDrag (Some m) offset start canvas pt prev)) \<le> canvasWidth canvas \<and>
   dadd (crop_y (updateDrag (Some m) offset start canvas pt prev))
        (crop_height (updateDrag (Some m) offset start canvas pt prev)) \<le> canvasHeight canvas \<and>
   crop_x (updateDrag (Some m) offset start canvas pt prev) +
   crop_width (updateDrag (Some m) offset start canvas pt prev)
     \<le> canvasWidth canvas + canvasWidth canvas / 2 ^ 53 \<and>
   crop_y (updateDrag (Some m) offset start canvas pt prev) +
   crop_height (updateDrag (Some m) offset start canvas pt prev)
     \<le> canvasHeight canvas + canvasHeight canvas / 2 ^ 53"
  using updateDrag_rounded [of canvas m offset start pt prev]
  unfolding contained_rounded_def .

theorem updateDrag_contained_witness:
  "updateDrag (Some SE) (point 0 0) (point 0 0) canvas_200_100 (point 500 (- 30)) (rect 20 20 100 50)
     = rect 0 0 200 50 \<and>
   dadd (crop_x (updateDrag (Some SE) (point 0 0) (point 0 0) canvas_200_100 (point 500 (- 30))
                   (rect 20 20 100 50)))
        (crop_width (updateDrag (Some SE) (point 0 0) (point 0 0) canvas_200_100 (point 500 (- 30))
                   (rect 20 20 100 50))) \<le> canvasWidth canvas_200_100"
proof -
  have "updateDrag (Some SE) (point 0 0) (point 0 0) canvas_200_100 (point 500 (- 30))
      (rect 20 20 100 50) = rect 0 0 200 50"
    by (simp add: updateDrag_def dragRect_def normalizeCrop_def boundaryChecks_def
        rect_def point_def Let_def dops_int)
  with updateDrag_contained [of SE "point 0 0" "point 0 0" canvas_200_100 "point 500 (- 30)"
      "rect 20 20 100 50"]
  show ?thesis by simp
qed

subsection \<open>Pointer down\<close>

lemma mouseDown_fields:
  assumes "isCropping st" and "\<not> isLoading st"
  shows "dragMode (handleCanvasMouseDown st pt) = Some (beginDrag_mode pt (crop st))"
    and "isDragging (handleCanvasMouseDown st pt)"
    and "isCropping (handleCanvasMouseDown st pt)"
    and "\<not> isLoading (handleCanvasMouseDown st pt)"
    and "dragOffset (handleCanvasMouseDown st pt) =
          (if beginDrag_mode pt (crop st) = Move
           then \<lparr>pt_x = dsub (pt_x pt) (crop_x (crop st)), pt_y = dsub (pt_y pt) (crop_y (crop st))\<rparr>
           else dragOffset st)"
    and "startPoint (handleCanvasMouseDown st pt) =
          (if beginDrag_mode pt (crop st) = Draw then pt else startPoint st)"
    and "crop (handleCanvasMouseDown st pt) =
          (if beginDrag_mode pt (crop st) = Draw
           then \<lparr>crop_x = pt_x pt, crop_y = pt_y pt, crop_width = 0, crop_height = 0\<rparr>
           else crop st)"
  using assms
  by (simp_all add: handleCanvasMouseDown_def beginDrag_mode_def Let_def isInsideHandle_zone
      strictly_inside_def)

lemma croppingState_fields:
  "isCropping (croppingState r)" "\<not> isLoading (croppingState r)" "crop (croppingState r) = r"
  "processedImageUrl (croppingState r) = Some ()"
  by (simp_all add: croppingState_def)

lemma narrow_mode: "beginDrag_mode edge_point narrow_rect = Draw"
  by (simp add: beginDrag_mode_def in_hit_zone_def strictly_inside_def narrow_rect_def
      edge_point_def rect_def point_def double_7_10 double_97_10 narrow_right dops_int)

text \<open>
  C6, as stated: a point strictly inside the rectangle, with no handle matching, gives
  \<open>move\<close>. The far edge \<open>crop.x + crop.width\<close> of line 342 is a binary64 sum. On the
  rectangle \<open>(0.7, 0, 9, 100)\<close> the pointer \<open>(9.7, 50)\<close> lies strictly inside, on exact
  numbers, and more than 6 away from every corner; \<open>0.7 + 9\<close> rounds down to \<open>9.7\<close>, the
  test \<open>x < 9.7\<close> fails and the mode is \<open>draw\<close>.
\<close>

theorem handleCanvasMouseDown_classifies_counterexample:
  "crop_x narrow_rect < pt_x edge_point \<and>
   pt_x edge_point < crop_x narrow_rect + crop_width narrow_rect \<and>
   crop_y narrow_rect < pt_y edge_point \<and>
   pt_y edge_point < crop_y narrow_rect + crop_height narrow_rect \<and>
   6 < \<bar>pt_y edge_point - crop_y narrow_rect\<bar> \<and>
   6 < \<bar>pt_y edge_point - (crop_y narrow_rect + crop_height narrow_rect)\<bar> \<and>
   dragMode (handleCanvasMouseDown (croppingState narrow_rect) edge_point) = Some Draw"
proof -
  have "dragMode (handleCanvasMouseDown (croppingState narrow_rect) edge_point) = Some Draw"
    by (simp add: mouseDown_fields(1) croppingState_fields narrow_mode)
  then show ?thesis
    by (simp add: narrow_rect_def edge_point_def rect_def point_def double_7_10 double_97_10)
qed

text \<open>
  C6, amended: in crop mode and not loading, \<open>handleCanvasMouseDown\<close> classifies the
  pointer against the four corner hit-zones in the order NW, NE, SW, SE, each zone the
  square of half-width 6 centred on the corner, the corner coordinates \<open>x + width\<close>,
  \<open>y + height\<close> and the four bounds of the zone being binary64 sums and differences; else,
  strictly inside the rectangle, its far edges being the binary64 sums \<open>x + width\<close> and
  \<open>y + height\<close>, the mode is \<open>move\<close> with offset the binary64 difference of the point and
  the origin of the rectangle; else \<open>draw\<close>, with the start point the pointer and the
  rectangle reset to the zero-size rectangle at the pointer. The point \<open>(5,5)\<close> on the
  rectangle \<open>(0,0,10,10)\<close> is \<open>nw\<close>, though it lies in the NE hit-zone and in the interior
  too.
\<close>

theorem handleCanvasMouseDown_classifies:
  assumes "isCropping st" and "\<not> isLoading st"
  shows "dragMode (handleCanvasMouseDown st pt) = Some (beginDrag_mode pt (crop st)) \<and>
         isDragging (handleCanvasMouseDown st pt) \<and>
         dragOffset (handleCanvasMouseDown st pt) =
           (if beginDrag_mode pt (crop st) = Move
            then \<lparr>pt_x = dsub (pt_x pt) (crop_x (crop st)),
                  pt_y = dsub (pt_y pt) (crop_y (crop st))\<rparr>
            else dragOffset st) \<and>
         startPoint (handleCanvasMouseDown st pt) =
           (if beginDrag_mode pt (crop st) = Draw then pt else startPoint st) \<and>
         crop (handleCanvasMouseDown st pt) =
           (if beginDrag_mode pt (crop st) = Draw
            then \<lparr>crop_x = pt_x pt, crop_y = pt_y pt, crop_width = 0, crop_height = 0\<rparr>
            else crop st) \<and>
         dragMode (handleCanvasMouseDown (st\<lparr>crop := rect 0 0 10 10\<rparr>) (point 5 5)) = Some NW \<and>
         in_hit_zone (point 5 5) 10 0 \<and> strictly_inside (point 5 5) (rect 0 0 10 10)"
proof -
  have ex: "isCropping (st\<lparr>crop := rect 0 0 10 10\<rparr>)" "\<not> isLoading (st\<lparr>crop := rect 0 0 10 10\<rparr>)"
    using assms by simp_all
  have "beginDrag_mode (point 5 5) (rect 0 0 10 10) = NW"
    by (simp add: beginDrag_mode_def in_hit_zone_def point_def rect_def dops_int)
  then have "dragMode (handleCanvasMouseDown (st\<lparr>crop := rect 0 0 10 10\<rparr>) (point 5 5)) = Some NW"
    using mouseDown_fields(1) [OF ex] by simp
  moreover have "in_hit_zone (point 5 5) 10 0 \<and> strictly_inside (point 5 5) (rect 0 0 10 10)"
    by (simp add: in_hit_zone_def strictly_inside_def point_def rect_def dops_int)
  ultimately show ?thesis
    using mouseDown_fields [OF assms] by simp
qed

theorem handleCanvasMouseDown_classifies_witness:
  "isCropping (croppingState (rect 20 20 100 50)) \<and>
   \<not> isLoading (croppingState (rect 20 20 100 50)) \<and>
   dragMode (handleCanvasMouseDown (croppingState (rect 20 20 100 50)) (point 60 40)) = Some Move \<and>
   dragOffset (handleCanvasMouseDown (croppingState (rect 20 20 100 50)) (point 60 40)) = point 40 20 \<and>
   dragMode (handleCanvasMouseDown (croppingState (rect 20 20 100 50)) (point 120 20)) = Some NE \<and>
   dragMode (handleCanvasMouseDown (croppingState (rect 20 20 100 50)) (point 120 45)) = Some Draw \<and>
   crop (handleCanvasMouseDown (croppingState (rect 20 20 100 50)) (point 120 45)) = rect 120 45 0 0"
proof -
  have h: "isCropping (croppingState (rect 20 20 100 50))"
          "\<not> isLoading (croppingState (rect 20 20 100 50))"
    by (simp_all add: croppingState_def)
  have m: "beginDrag_mode (point 60 40) (rect 20 20 100 50) = Move"
          "beginDrag_mode (point 120 20) (rect 20 20 100 50) = NE"
          "beginDrag_mode (point 120 45) (rect 20 20 100 50) = Draw"
    by (simp_all add: beginDrag_mode_def in_hit_zone_def strictly_inside_def point_def rect_def
        dops_int)
  have c: "crop (croppingState (rect 20 20 100 50)) = rect 20 20 100 50"
    by (simp add: croppingState_def)
  have o: "dsub (pt_x (point 60 40)) (crop_x (rect 20 20 100 50)) = 40"
          "dsub (pt_y (point 60 40)) (crop_y (rect 20 20 100 50)) = 20"
    by (simp_all add: point_def rect_def dops_int)
  show ?thesis
    using h handleCanvasMouseDown_classifies [OF h, of "point 60 40"]
      handleCanvasMouseDown_classifies [OF h, of "point 120 20"]
      handleCanvasMouseDown_classifies [OF h, of "point 120 45"]
    by (simp add: m c o) (simp add: point_def rect_def)
qed

lemma on_zone_corner_inside:
  "on_zone_corner pt cx cy \<Longrightarrow> isInsideHandle (pt_x pt) (pt_y pt) cx cy"
proof -
  have le: "dsub v 6 \<le> dadd v 6" for v
    unfolding dsub_def dadd_def by (rule to_double_mono) simp
  assume "on_zone_corner pt cx cy"
  then show ?thesis
    using le [of cx] le [of cy] by (auto simp: isInsideHandle_zone on_zone_corner_def in_hit_zone_def)
qed

text \<open>
  C10, as stated: a point at distance exactly 6 in both axes from a corner is classified
  as that corner's resize mode. On the rectangle \<open>(0,0,10,10)\<close> the point \<open>(4,6)\<close> is at
  distance 6 and 6 from the NE corner \<open>(10,0)\<close>; it also lies in the hit-zone of the NW
  corner, which is tested first, and the mode is \<open>nw\<close>.
\<close>

theorem handle_boundary_counterexample:
  "\<bar>pt_x (point 4 6) - (crop_x (rect 0 0 10 10) + crop_width (rect 0 0 10 10))\<bar> = 6 \<and>
   \<bar>pt_y (point 4 6) - crop_y (rect 0 0 10 10)\<bar> = 6 \<and>
   on_zone_corner (point 4 6)
     (dadd (crop_x (rect 0 0 10 10)) (crop_width (rect 0 0 10 10))) (crop_y (rect 0 0 10 10)) \<and>
   dragMode (handleCanvasMouseDown (croppingState (rect 0 0 10 10)) (point 4 6)) = Some NW \<and>
   dragMode (handleCanvasMouseDown (croppingState (rect 0 0 10 10)) (point 4 6)) \<noteq> Some NE"
  by (simp add: on_zone_corner_def handleCanvasMouseDown_def croppingState_def rect_def point_def
      Let_def isInsideHandle_def dops_int)

text \<open>
  A point at exact distance 6 and 6 from the exact NE corner that the code classifies as
  \<open>move\<close>: \<open>1 + 15.1\<close> rounds up, and with it the left bound of the zone.
\<close>

lemma double_151_10: "to_double (151 / 10) = 8500544296661811 / 562949953421312"
  by code_simp

lemma double_101_10: "to_double (101 / 10) = 5685794529555251 / 562949953421312"
  by code_simp

lemma wide_right: "dadd 1 (8500544296661811 / 562949953421312) = 2265873562520781 / 140737488355328"
  by code_simp

lemma wide_bound: "dsub (2265873562520781 / 140737488355328) 6 = 1421448632388813 / 140737488355328"
  by code_simp

lemma handle_boundary_rounding:
  "\<bar>pt_x near_point - (crop_x wide_rect + crop_width wide_rect)\<bar> = 6 \<and>
   \<bar>pt_y near_point - crop_y wide_rect\<bar> = 6 \<and>
   dragMode (handleCanvasMouseDown (croppingState wide_rect) near_point) = Some Move"
proof -
  have one: "dsub 1 6 = - 5" "dadd 1 6 = 7"
    by (simp_all add: dsub_def dadd_def)
  have "beginDrag_mode near_point wide_rect = Move"
    by (simp add: beginDrag_mode_def in_hit_zone_def strictly_inside_def wide_rect_def
        near_point_def rect_def point_def double_151_10 double_101_10 wide_right wide_bound
        dops_int one)
  then have "dragMode (handleCanvasMouseDown (croppingState wide_rect) near_point) = Some Move"
    by (simp add: mouseDown_fields(1) croppingState_fields)
  then show ?thesis
    by (simp add: wide_rect_def near_point_def rect_def point_def double_151_10 double_101_10)
qed

text \<open>
  C10, amended: the hit test is inclusive of the bounds it computes. A point whose
  coordinates are the binary64 values \<open>handleX - 6\<close> or \<open>handleX + 6\<close> and \<open>handleY - 6\<close>
  or \<open>handleY + 6\<close> of a corner, the corner being \<open>x\<close> or the binary64 sum \<open>x + width\<close> and
  \<open>y\<close> or the binary64 sum \<open>y + height\<close>, is inside that corner's hit-zone, and
  \<open>handleCanvasMouseDown\<close> classifies it as a resize mode, never as \<open>move\<close> or \<open>draw\<close>: as
  the mode of that corner, unless the point also lies in the hit-zone of a corner
  earlier in the order NW, NE, SW, SE, and then as the mode of the earliest such corner.
\<close>

theorem handle_boundary_inclusive:
  assumes "isCropping st" and "\<not> isLoading st"
  shows
    "(\<forall>cx cy. on_zone_corner pt cx cy \<longrightarrow> isInsideHandle (pt_x pt) (pt_y pt) cx cy) \<and>
     (on_zone_corner pt (crop_x (crop st)) (crop_y (crop st)) \<longrightarrow>
        dragMode (handleCanvasMouseDown st pt) = Some NW) \<and>
     (on_zone_corner pt (dadd (crop_x (crop st)) (crop_width (crop st))) (crop_y (crop st)) \<longrightarrow>
        dragMode (handleCanvasMouseDown st pt) =
          Some (if isInsideHandle (pt_x pt) (pt_y pt) (crop_x (crop st)) (crop_y (crop st))
                then NW else NE)) \<and>
     (on_zone_corner pt (crop_x (crop st)) (dadd (crop_y (crop st)) (crop_height (crop st))) \<longrightarrow>
        dragMode (handleCanvasMouseDown st pt) =
          Some (if isInsideHandle (pt_x pt) (pt_y pt) (crop_x (crop st)) (crop_y (crop st))
                then NW
                else if isInsideHandle (pt_x pt) (pt_y pt)
                          (dadd (crop_x (crop st)) (crop_width (crop st))) (crop_y (crop st))
                then NE else SW)) \<and>
     (on_zone_corner pt (dadd (crop_x (crop st)) (crop_width (crop st)))
                        (dadd (crop_y (crop st)) (crop_height (crop st))) \<longrightarrow>
        dragMode (handleCanvasMouseDown st pt) =
          Some (if isInsideHandle (pt_x pt) (pt_y pt) (crop_x (crop st)) (crop_y (crop st))
                then NW
                else if isInsideHandle (pt_x pt) (pt_y pt)
                          (dadd (crop_x (crop st)) (crop_width (crop st))) (crop_y (crop st))
                then NE
                else if isInsideHandle (pt_x pt) (pt_y pt)
                          (crop_x (crop st)) (dadd (crop_y (crop st)) (crop_height (crop st)))
                then SW else SE))"
  using on_zone_corner_inside [of pt]
  by (simp add: mouseDown_fields(1) [OF assms] beginDrag_mode_def isInsideHandle_zone)

theorem handle_boundary_inclusive_witness:
  "isCropping (croppingState (rect 20 20 100 50)) \<and>
   \<not> isLoading (croppingState (rect 20 20 100 50)) \<and>
   on_zone_corner (point 126 76) 120 70 \<and>
   dragMode (handleCanvasMouseDown (croppingState (rect 20 20 100 50)) (point 126 76)) = Some SE \<and>
   on_zone_corner (point 14 76) 20 70 \<and>
   dragMode (handleCanvasMouseDown (croppingState (rect 20 20 100 50)) (point 14 76)) = Some SW"
proof -
  let ?st = "croppingState (rect 20 20 100 50)"
  have h: "isCropping ?st" "\<not> isLoading ?st"
    by (simp_all add: croppingState_def)
  have c: "crop ?st = \<lparr>crop_x = 20, crop_y = 20, crop_width = 100, crop_height = 50\<rparr>"
    by (simp add: croppingState_def rect_def)
  have z: "on_zone_corner (point 126 76) 120 70" "on_zone_corner (point 14 76) 20 70"
    by (simp_all add: on_zone_corner_def point_def dops_int)
  have n: "\<not> isInsideHandle (pt_x (point 126 76)) (pt_y (point 126 76)) 20 20"
          "\<not> isInsideHandle (pt_x (point 126 76)) (pt_y (point 126 76)) 120 20"
          "\<not> isInsideHandle (pt_x (point 126 76)) (pt_y (point 126 76)) 20 70"
          "\<not> isInsideHandle (pt_x (point 14 76)) (pt_y (point 14 76)) 20 20"
          "\<not> isInsideHandle (pt_x (point 14 76)) (pt_y (point 14 76)) 120 20"
    by (simp_all add: isInsideHandle_def point_def dops_int)
  from handle_boundary_inclusive [OF h, of "point 126 76"]
       handle_boundary_inclusive [OF h, of "point 14 76"]
  show ?thesis
    using h z n by (simp add: c dops_int)
qed

subsection \<open>Applying the crop\<close>

text \<open>
  C8: with a processed image and a mounted canvas, \<open>handleApplyCrop\<close> sets the error
  message exactly when the width or the height of the rectangle is 0; then nothing else
  of the state changes, the rectangle and the processed image included; with both
  dimensions nonzero the error is cleared.
\<close>

theorem handleApplyCrop_error:
  assumes "processedImageUrl st = Some url" and "canvasRef = Some sourceCanvas"
  shows "(error (handleApplyCrop drawCropped canvasRef st) = invalidCropMessage \<longleftrightarrow>
            crop_width (crop st) = 0 \<or> crop_height (crop st) = 0) \<and>
         (if crop_width (crop st) = 0 \<or> crop_height (crop st) = 0
          then handleApplyCrop drawCropped canvasRef st = st\<lparr>error := invalidCropMessage\<rparr> \<and>
               crop (handleApplyCrop drawCropped canvasRef st) = crop st \<and>
               processedImageUrl (handleApplyCrop drawCropped canvasRef st) = processedImageUrl st
          else error (handleApplyCrop drawCropped canvasRef st) = [])"
  using assms by (simp add: handleApplyCrop_def invalidCropMessage_def)

theorem handleApplyCrop_error_witness:
  "processedImageUrl (croppingState (rect 0 0 0 5)) = Some () \<and>
   error (handleApplyCrop (\<lambda>url c r. url) (Some \<lparr>canvas_width = 10, canvas_height = 10\<rparr>)
            (croppingState (rect 0 0 0 5))) = invalidCropMessage \<and>
   crop (handleApplyCrop (\<lambda>url c r. url) (Some \<lparr>canvas_width = 10, canvas_height = 10\<rparr>)
            (croppingState (rect 0 0 0 5))) = rect 0 0 0 5 \<and>
   error (handleApplyCrop (\<lambda>url c r. url) (Some \<lparr>canvas_width = 10, canvas_height = 10\<rparr>)
            (croppingState (rect 0 0 4 5))) = []"
proof -
  have h: "processedImageUrl (croppingState r) = Some ()" for r
    by (simp add: croppingState_def)
  have c: "crop (croppingState r) = r" for r
    by (simp add: croppingState_def)
  show ?thesis
    using handleApplyCrop_error [where st = "croppingState (rect 0 0 0 5)" and url = "()"
        and canvasRef = "Some \<lparr>canvas_width = 10, canvas_height = 10\<rparr>"
        and sourceCanvas = "\<lparr>canvas_width = 10, canvas_height = 10\<rparr>"
        and drawCropped = "\<lambda>url c r. url"]
      handleApplyCrop_error [where st = "croppingState (rect 0 0 4 5)" and url = "()"
        and canvasRef = "Some \<lparr>canvas_width = 10, canvas_height = 10\<rparr>"
        and sourceCanvas = "\<lparr>canvas_width = 10, canvas_height = 10\<rparr>"
        and drawCropped = "\<lambda>url c r. url"]
    by (simp add: h c rect_def)
qed

subsection \<open>Moving the rectangle\<close>

lemma updateCursor_fields:
  "isCropping (updateCursor st pt) = isCropping st"
  "isLoading (updateCursor st pt) = isLoading st"
  "isDragging (updateCursor st pt) = isDragging st"
  "dragMode (updateCursor st pt) = dragMode st"
  "dragOffset (updateCursor st pt) = dragOffset st"
  "startPoint (updateCursor st pt) = startPoint st"
  "crop (updateCursor st pt) = crop st"
  by (simp_all add: updateCursor_def Let_def)

lemma mouseMove_fields:
  "isCropping (handleCanvasMouseMove st canvas pt) = isCropping st"
  "isLoading (handleCanvasMouseMove st canvas pt) = isLoading st"
  "isDragging (handleCanvasMouseMove st canvas pt) = isDragging st"
  "dragMode (handleCanvasMouseMove st canvas pt) = dragMode st"
  "dragOffset (handleCanvasMouseMove st canvas pt) = dragOffset st"
  "startPoint (handleCanvasMouseMove st canvas pt) = startPoint st"
  by (simp_all add: handleCanvasMouseMove_def Let_def updateCursor_fields)

lemma mouseMove_crop:
  assumes "isDragging st" and "isCropping st" and "\<not> isLoading st"
  shows "crop (handleCanvasMouseMove st canvas pt) =
         updateDrag (dragMode st) (dragOffset st) (startPoint st) canvas pt (crop st)"
  using assms by (simp add: handleCanvasMouseMove_def Let_def updateCursor_fields)

lemma strictly_inside_size:
  assumes "strictly_inside pt r" and "is_double (crop_x r)" and "is_double (crop_y r)"
  shows "0 \<le> crop_width r" and "0 \<le> crop_height r"
proof -
  have pos: "0 \<le> w" if "x < p" and "p < dadd x w" and "to_double x = x" for x w p :: rat
  proof (rule ccontr)
    assume "\<not> 0 \<le> w"
    then have "x + w \<le> x" by simp
    then have "to_double (x + w) \<le> to_double x" by (rule to_double_mono)
    with that show False unfolding dadd_def by linarith
  qed
  from assms show "0 \<le> crop_width r"
    unfolding strictly_inside_def is_double_def by (intro pos [of "crop_x r" "pt_x pt"]) simp_all
  from assms show "0 \<le> crop_height r"
    unfolding strictly_inside_def is_double_def by (intro pos [of "crop_y r" "pt_y pt"]) simp_all
qed

lemma dragging_mouseDown:
  assumes "isCropping st" and "\<not> isLoading st"
    and "is_double (crop_x (crop st))" and "is_double (crop_y (crop st))"
  shows "dragging (handleCanvasMouseDown st pt)"
proof -
  have "0 \<le> crop_width (crop st) \<and> 0 \<le> crop_height (crop st)"
    if "beginDrag_mode pt (crop st) = Move"
  proof -
    from that have "strictly_inside pt (crop st)"
      by (auto simp: beginDrag_mode_def split: if_splits)
    then show ?thesis using strictly_inside_size [OF _ assms(3,4)] by simp
  qed
  then show ?thesis
    by (simp add: dragging_def mouseDown_fields [OF assms(1,2)])
qed

lemma dragging_mouseMove:
  assumes "dragging st"
  shows "dragging (handleCanvasMouseMove st canvas pt)"
proof -
  from assms have g: "isDragging st" "isCropping st" "\<not> isLoading st"
    by (simp_all add: dragging_def)
  have "contained_rounded canvas (crop (handleCanvasMouseMove st canvas pt))"
    if "dragMode st = Some Move"
    using that updateDrag_rounded [of canvas Move] by (simp add: mouseMove_crop [OF g])
  then show ?thesis
    using g by (simp add: dragging_def mouseMove_fields contained_rounded_def)
qed

lemma foldl_mouseMove_fields:
  "dragMode (foldl (\<lambda>s p. handleCanvasMouseMove s canvas p) s pts) = dragMode s"
  "dragOffset (foldl (\<lambda>s p. handleCanvasMouseMove s canvas p) s pts) = dragOffset s"
  by (induction pts arbitrary: s) (simp_all add: mouseMove_fields)

lemma dragging_foldl:
  "dragging s \<Longrightarrow> dragging (foldl (\<lambda>s p. handleCanvasMouseMove s canvas p) s pts)"
  by (induction pts arbitrary: s) (simp_all add: dragging_mouseMove)

lemma dragging_gesture:
  assumes "isCropping st0" and "\<not> isLoading st0"
    and "is_double (crop_x (crop st0))" and "is_double (crop_y (crop st0))"
  shows "dragging (dragGesture st0 p0 canvas pts)"
  unfolding dragGesture_def by (rule dragging_foldl [OF dragging_mouseDown [OF assms]])

lemma move_axis:
  assumes k: "k < 2 ^ 52" and w: "0 \<le> w" "w \<le> of_nat k"
  shows "\<not> dadd (max 0 (min t (dsub (of_nat k) w))) w > of_nat k"
proof -
  have "0 \<le> dsub (of_nat k) w"
    unfolding dsub_def using w(2) by (intro to_double_nonneg) simp
  then have "max 0 (min t (dsub (of_nat k) w)) + w \<le> dsub (of_nat k) w + w" by simp
  then have "dadd (max 0 (min t (dsub (of_nat k) w))) w \<le> to_double (dsub (of_nat k) w + w)"
    unfolding dadd_def by (rule to_double_mono)
  also have "\<dots> \<le> of_nat k"
    unfolding dsub_def by (rule round_back [OF k w])
  finally show ?thesis by simp
qed

text \<open>The update of a move, for a rectangle that fits in the canvas.\<close>

lemma move_update:
  assumes "dragging st" and "dragMode st = Some Move"
    and "crop_width (crop st) \<le> canvasWidth canvas"
    and "crop_height (crop st) \<le> canvasHeight canvas"
  shows "crop (handleCanvasMouseMove st canvas pt) =
           \<lparr>crop_x = max 0 (min (dsub (pt_x pt) (pt_x (dragOffset st)))
                                 (dsub (canvasWidth canvas) (crop_width (crop st)))),
            crop_y = max 0 (min (dsub (pt_y pt) (pt_y (dragOffset st)))
                                 (dsub (canvasHeight canvas) (crop_height (crop st)))),
            crop_width = crop_width (crop st),
            crop_height = crop_height (crop st)\<rparr>"
proof -
  from assms(1,2) have g: "isDragging st" "isCropping st" "\<not> isLoading st"
    and nn: "0 \<le> crop_width (crop st)" "0 \<le> crop_height (crop st)"
    by (simp_all add: dragging_def)
  have b: "unat v < 2 ^ 52" for v :: "32 word"
  proof -
    have "unat v < 2 ^ 32" using unsigned_less [of v, where ?'a = nat] by simp
    then show ?thesis by simp
  qed
  have t: "dragRect (Some Move) (dragOffset st) (startPoint st) pt (crop st) =
           Some \<lparr>crop_x = dsub (pt_x pt) (pt_x (dragOffset st)),
                 crop_y = dsub (pt_y pt) (pt_y (dragOffset st)),
                 crop_width = crop_width (crop st), crop_height = crop_height (crop st)\<rparr>"
    by (simp add: dragRect_def Let_def)
  have ax: "\<not> dadd (max 0 (min tx (dsub (canvasWidth canvas) (crop_width (crop st)))))
                   (crop_width (crop st)) > canvasWidth canvas" for tx
    using move_axis [OF b nn(1), of "canvas_width canvas" tx] assms(3)
    unfolding canvasWidth_def by blast
  have ay: "\<not> dadd (max 0 (min ty (dsub (canvasHeight canvas) (crop_height (crop st)))))
                   (crop_height (crop st)) > canvasHeight canvas" for ty
    using move_axis [OF b nn(2), of "canvas_height canvas" ty] assms(4)
    unfolding canvasHeight_def by blast
  show ?thesis
    using nn ax ay
    by (simp add: mouseMove_crop [OF g] assms(2) updateDrag_def t boundaryChecks_def Let_def
        normalizeCrop_def)
qed

lemma thin_session_state:
  "thin_session = (croppingState thin_rect)
     \<lparr>isDragging := True, dragMode := Some Move, dragOffset := point (1 / 16) 35\<rparr>"
  by (simp add: thin_session_def dragGesture_def handleCanvasMouseDown_def Let_def
      croppingState_def isInsideHandle_def thin_rect_def thin_width_value thin_right
      rect_def point_def sixteenth dops_int)

lemma thin_session_move:
  "crop (handleCanvasMouseMove thin_session canvas_200_100 (point 500 35)) =
     rect (7033355980557517 / 35184372088832) 0 thin_width 70"
  by (simp add: thin_session_state handleCanvasMouseMove_def updateCursor_def Let_def
      croppingState_def updateDrag_def dragRect_def normalizeCrop_def boundaryChecks_def
      thin_rect_def thin_width_value rect_def point_def sixteenth thin_left thin_sum dops_int)

text \<open>
  C9, as stated: in a move session the origin is clamped so as to keep the rectangle
  inside the canvas. The rectangle \<open>(20, 0, 20.1 - 20, 70)\<close>, grabbed at \<open>(20.0625, 35)\<close>
  and moved to \<open>(500, 35)\<close> on a canvas of 200 by 100, is no wider and no higher than the
  canvas; its new origin is \<open>199.9\<close>, the binary64 value of \<open>200 - width\<close>, and its right
  edge is at \<open>200 + 2^-47\<close>.
\<close>

theorem move_keeps_size_counterexample:
  "dragMode thin_session = Some Move \<and>
   crop thin_session = thin_rect \<and>
   crop_width (crop thin_session) \<le> canvasWidth canvas_200_100 \<and>
   crop_height (crop thin_session) \<le> canvasHeight canvas_200_100 \<and>
   crop_x (crop (handleCanvasMouseMove thin_session canvas_200_100 (point 500 35))) +
   crop_width (crop (handleCanvasMouseMove thin_session canvas_200_100 (point 500 35)))
     = 200 + 1 / 2 ^ 47 \<and>
   \<not> contained canvas_200_100
       (crop (handleCanvasMouseMove thin_session canvas_200_100 (point 500 35)))"
proof -
  have s: "dragMode thin_session = Some Move" "crop thin_session = thin_rect"
    by (simp_all add: thin_session_state croppingState_def)
  show ?thesis
    unfolding thin_session_move s
    by (simp add: thin_rect_def thin_width_value rect_def contained_def)
qed

text \<open>
  C9, amended: in a move session (a pointer-down that \<open>handleCanvasMouseDown\<close> classified
  as \<open>move\<close> on a rectangle whose origin is a pair of binary64 values, followed by any
  pointer-moves), if the rectangle is no wider and no higher than the canvas, the next
  pointer-move leaves its width and height as they are, and its origin is the binary64
  difference of the pointer and the offset of the session, clamped between 0 and the
  binary64 difference of the canvas size and the size of the rectangle. That keeps the
  rectangle inside the canvas up to one rounding error, as in C5. The offset of the
  session is the one recorded at the pointer-down: the binary64 difference of that
  point and the origin the rectangle had then.
\<close>

theorem move_keeps_size:
  assumes "isCropping st0" and "\<not> isLoading st0"
    and "is_double (crop_x (crop st0))" and "is_double (crop_y (crop st0))"
    and "st = dragGesture st0 p0 canvas pts"
    and "dragMode st = Some Move"
    and "crop_width (crop st) \<le> canvasWidth canvas"
    and "crop_height (crop st) \<le> canvasHeight canvas"
  shows "crop (handleCanvasMouseMove st canvas pt) =
           \<lparr>crop_x = max 0 (min (dsub (pt_x pt) (pt_x (dragOffset st)))
                                 (dsub (canvasWidth canvas) (crop_width (crop st)))),
            crop_y = max 0 (min (dsub (pt_y pt) (pt_y (dragOffset st)))
                                 (dsub (canvasHeight canvas) (crop_height (crop st)))),
            crop_width = crop_width (crop st),
            crop_height = crop_height (crop st)\<rparr> \<and>
         dragOffset st = \<lparr>pt_x = dsub (pt_x p0) (crop_x (crop st0)),
                           pt_y = dsub (pt_y p0) (crop_y (crop st0))\<rparr> \<and>
         contained_rounded canvas (crop (handleCanvasMouseMove st canvas pt))"
proof -
  have d: "dragging st"
    unfolding assms(5) by (rule dragging_gesture [OF assms(1-4)])
  then have g: "isDragging st" "isCropping st" "\<not> isLoading st"
    by (simp_all add: dragging_def)
  have "dragMode (handleCanvasMouseDown st0 p0) = Some Move"
    using assms(6) by (simp add: assms(5) dragGesture_def foldl_mouseMove_fields)
  then have "beginDrag_mode p0 (crop st0) = Move"
    by (simp add: mouseDown_fields(1) [OF assms(1,2)])
  then have off: "dragOffset st =
      \<lparr>pt_x = dsub (pt_x p0) (crop_x (crop st0)), pt_y = dsub (pt_y p0) (crop_y (crop st0))\<rparr>"
    by (simp add: assms(5) dragGesture_def foldl_mouseMove_fields
        mouseDown_fields(5) [OF assms(1,2)])
  have c: "contained_rounded canvas (crop (handleCanvasMouseMove st canvas pt))"
    using updateDrag_rounded [of canvas Move] by (simp add: mouseMove_crop [OF g] assms(6))
  from move_update [OF d assms(6,7,8)] off c show ?thesis by blast
qed

theorem move_keeps_size_witness:
  "isCropping (croppingState (rect 20 20 100 50)) \<and>
   \<not> isLoading (croppingState (rect 20 20 100 50)) \<and>
   is_double (crop_x (crop (croppingState (rect 20 20 100 50)))) \<and>
   is_double (crop_y (crop (croppingState (rect 20 20 100 50)))) \<and>
   dragMode (dragGesture (croppingState (rect 20 20 100 50)) (point 60 40)
      canvas_200_100 [point 70 45]) = Some Move \<and>
   crop (dragGesture (croppingState (rect 20 20 100 50)) (point 60 40)
      canvas_200_100 [point 70 45]) = rect 30 25 100 50 \<and>
   crop (handleCanvasMouseMove
      (dragGesture (croppingState (rect 20 20 100 50)) (point 60 40)
         canvas_200_100 [point 70 45])
      canvas_200_100 (point 500 10)) = rect 100 0 100 50"
proof -
  let ?init = "croppingState (rect 20 20 100 50)"
  let ?st = "dragGesture ?init (point 60 40) canvas_200_100 [point 70 45]"
  have h: "isCropping ?init" "\<not> isLoading ?init"
    by (simp_all add: croppingState_def)
  have dbl: "is_double (crop_x (crop ?init))" "is_double (crop_y (crop ?init))"
    by (simp_all add: croppingState_def rect_def is_double_def)
  have down: "handleCanvasMouseDown ?init (point 60 40) =
      ?init\<lparr>isDragging := True, dragMode := Some Move, dragOffset := point 40 20\<rparr>"
    by (simp add: handleCanvasMouseDown_def croppingState_def rect_def point_def Let_def
        isInsideHandle_def dops_int)
  have st: "?st = ?init\<lparr>isDragging := True, dragMode := Some Move, dragOffset := point 40 20,
                        crop := rect 30 25 100 50\<rparr>"
    by (simp add: dragGesture_def down)
      (simp add: handleCanvasMouseMove_def updateCursor_def updateDrag_def dragRect_def
        normalizeCrop_def boundaryChecks_def croppingState_def rect_def point_def Let_def
        dops_int)
  have m: "dragMode ?st = Some Move" and c: "crop ?st = rect 30 25 100 50"
    and off: "dragOffset ?st = point 40 20"
    by (simp_all add: st)
  have b: "crop_width (crop ?st) \<le> canvasWidth canvas_200_100"
          "crop_height (crop ?st) \<le> canvasHeight canvas_200_100"
    unfolding c by (simp_all add: rect_def)
  from move_keeps_size [OF h dbl refl m b, of "point 500 10"]
  have "crop (handleCanvasMouseMove ?st canvas_200_100 (point 500 10)) =
          \<lparr>crop_x = max 0 (min (dsub (pt_x (point 500 10)) (pt_x (dragOffset ?st)))
                                 (dsub (canvasWidth canvas_200_100) (crop_width (crop ?st)))),
            crop_y = max 0 (min (dsub (pt_y (point 500 10)) (pt_y (dragOffset ?st)))
                                 (dsub (canvasHeight canvas_200_100) (crop_height (crop ?st)))),
            crop_width = crop_width (crop ?st),
            crop_height = crop_height (crop ?st)\<rparr>"
    by (rule conjunct1)
  then have "crop (handleCanvasMouseMove ?st canvas_200_100 (point 500 10)) = rect 100 0 100 50"
    unfolding c off by (simp add: rect_def point_def dops_int)
  with h dbl m c show ?thesis by simp
qed

end
